theory Spec2Isabelle
  imports Complex_Main "HOL-Library.Word"
begin

unbundle bit_operations_syntax

section \<open>Data model of \<^verbatim>\<open>system_windows.cpp\<close>\<close>

text \<open>
  \<^verbatim>\<open>std::string\<close> is a list of bytes (\<open>string\<close>), \<^verbatim>\<open>std::wstring\<close> a list of the
  16-bit \<^verbatim>\<open>wchar_t\<close> of Windows. \<^verbatim>\<open>long long\<close> is a 64-bit word, read with \<open>sint\<close>;
  \<^verbatim>\<open>unsigned int\<close> a 32-bit word.
\<close>

type_synonym wchar_t = "16 word"
type_synonym wstring = "wchar_t list"

datatype SystemDialogType = SDT_INFO | SDT_WARNING | SDT_ERROR | SDT_YES_NO | SDT_OK_CANCEL

datatype SystemDialogResult = SDR_OK | SDR_CANCEL | SDR_YES | SDR_NO

record SystemTimeStamp =
  counterValue :: "64 word"

record CSystemUtilsWindows =
  m_counterFrequency :: "64 word"

text \<open>
  The logger is a collaborator that only receives messages: a message is kept as its
  level, its format string and its arguments, and the log is the list of the messages
  sent so far, oldest first.
\<close>

datatype LogLevel = LOG_TRACE | LOG_WARN | LOG_ERROR

datatype LogArg = ArgStr string | ArgInt int

record LogEntry =
  level :: LogLevel
  format :: string
  args :: "LogArg list"

type_synonym Logger = "LogEntry list"

definition Trace :: "string \<Rightarrow> LogArg list \<Rightarrow> Logger \<Rightarrow> Logger" where
  "Trace fmt as lg = lg @ [\<lparr>level = LOG_TRACE, format = fmt, args = as\<rparr>]"

definition Warn :: "string \<Rightarrow> LogArg list \<Rightarrow> Logger \<Rightarrow> Logger" where
  "Warn fmt as lg = lg @ [\<lparr>level = LOG_WARN, format = fmt, args = as\<rparr>]"

definition Error :: "string \<Rightarrow> LogArg list \<Rightarrow> Logger \<Rightarrow> Logger" where
  "Error fmt as lg = lg @ [\<lparr>level = LOG_ERROR, format = fmt, args = as\<rparr>]"

text \<open>
  \<^verbatim>\<open>c_str()\<close> hands a NUL-terminated buffer to a C interface, which reads it up to the
  first NUL.
\<close>

definition c_str :: "string \<Rightarrow> string" where
  "c_str s = takeWhile (\<lambda>c. c \<noteq> CHR 0x00) s"

definition wc_str :: "wstring \<Rightarrow> wstring" where
  "wc_str w = takeWhile (\<lambda>c. c \<noteq> 0) w"

text \<open>\<^verbatim>\<open>static_cast<int>(size_t)\<close>: the low 32 bits, read as two's complement.\<close>

definition size_to_int :: "nat \<Rightarrow> int" where
  "size_to_int n = sint (word_of_nat n :: 32 word)"


section \<open>Floating-point values\<close>

text \<open>
  \<^verbatim>\<open>float\<close> and \<^verbatim>\<open>double\<close> are the IEEE 754 formats binary32 and binary64, every
  operation rounded to nearest, ties to even, in the format of its type (as the SSE
  units of the x86 targets of this file compute). A finite value is the rational number
  it stands for. The sign of a zero is not kept: no operation of this file tells the two
  zeros apart, the only divisor being an integer converted to \<^verbatim>\<open>double\<close>, whose zero
  is the positive one.
\<close>

datatype fpval = Finite rat | PInf | NInf | NaN

definition pow2 :: "int \<Rightarrow> rat" where
  "pow2 k = (if 0 \<le> k then 2 ^ nat k else 1 / 2 ^ nat (- k))"

lemma ceiling_half_less: "2 < (y::rat) \<Longrightarrow> \<lceil>y / 2\<rceil> < \<lceil>y\<rceil>"
  by linarith

lemma ceiling_ge_2: "1 < (y::rat) \<Longrightarrow> 2 \<le> \<lceil>y\<rceil>"
  by linarith

lemma ilog2_term_up:
  fixes x :: rat
  assumes "\<not> x \<le> 0" "x < 1"
  shows "(if 2 * x < 1 then nat \<lceil>1 / (2 * x)\<rceil> else nat \<lfloor>2 * x\<rfloor>) < nat \<lceil>1 / x\<rceil>"
proof -
  have x: "0 < x" using assms by simp
  have "1 < 1 / x" using assms x by (simp add: field_simps)
  then have c2: "2 \<le> \<lceil>1 / x\<rceil>" by (rule ceiling_ge_2)
  then have pos: "0 < \<lceil>1 / x\<rceil>" by linarith
  show ?thesis
  proof (cases "2 * x < 1")
    case True
    have "2 < 1 / x" using True x by (simp add: field_simps)
    then have "\<lceil>(1 / x) / 2\<rceil> < \<lceil>1 / x\<rceil>" by (rule ceiling_half_less)
    moreover have "1 / (2 * x) = (1 / x) / 2" by simp
    ultimately have "\<lceil>1 / (2 * x)\<rceil> < \<lceil>1 / x\<rceil>" by (simp only:)
    then show ?thesis by (simp only: True if_True nat_mono_iff [OF pos])
  next
    case False
    then have "\<lfloor>2 * x\<rfloor> = 1" using assms by linarith
    moreover have "(1::int) < \<lceil>1 / x\<rceil>" using c2 by linarith
    ultimately show ?thesis by (simp only: False if_False nat_mono_iff [OF pos])
  qed
qed

lemma ilog2_term_down:
  fixes x :: rat
  assumes "2 \<le> x"
  shows "nat \<lfloor>x / 2\<rfloor> < nat \<lfloor>x\<rfloor>"
proof -
  have "\<lfloor>x / 2\<rfloor> < \<lfloor>x\<rfloor>" using assms by linarith
  moreover have "0 < \<lfloor>x\<rfloor>" using assms by linarith
  ultimately show ?thesis by simp
qed

text \<open>The binary exponent of a positive number: the \<open>e\<close> with \<open>2^e \<le> x < 2^(e+1)\<close>.\<close>

function ilog2 :: "rat \<Rightarrow> int" where
  "ilog2 x = (if x \<le> 0 then 0
              else if x < 1 then ilog2 (2 * x) - 1
              else if 2 \<le> x then ilog2 (x / 2) + 1
              else 0)"
  by pat_completeness auto
termination
proof (relation "measure (\<lambda>x. if x < 1 then nat \<lceil>1 / x\<rceil> else nat \<lfloor>x\<rfloor>)")
  show "wf (measure (\<lambda>x::rat. if x < 1 then nat \<lceil>1 / x\<rceil> else nat \<lfloor>x\<rfloor>))"
    by (rule wf_measure)
next
  fix x :: rat
  assume a: "\<not> x \<le> 0" "x < 1"
  show "(2 * x, x) \<in> measure (\<lambda>x. if x < 1 then nat \<lceil>1 / x\<rceil> else nat \<lfloor>x\<rfloor>)"
    using ilog2_term_up [OF a] a(2) by (simp only: in_measure if_True)
next
  fix x :: rat
  assume a: "\<not> x \<le> 0" "\<not> x < 1" "2 \<le> x"
  then have "\<not> x / 2 < 1" by simp
  then show "(x / 2, x) \<in> measure (\<lambda>x. if x < 1 then nat \<lceil>1 / x\<rceil> else nat \<lfloor>x\<rfloor>)"
    using ilog2_term_down [OF a(3)] a(2) by (simp only: in_measure if_False)
qed

declare ilog2.simps [simp del]

text \<open>Rounding to the nearest integer, a tie to the even one.\<close>

definition round_even :: "rat \<Rightarrow> int" where
  "round_even y =
     (let f = \<lfloor>y\<rfloor>; r = y - of_int f
      in if r < 1 / 2 then f else if 1 / 2 < r then f + 1 else if even f then f else f + 1)"

text \<open>
  Rounding a real number into the format with \<open>p\<close> significant bits and the exponent
  range \<open>emin .. emax\<close>: the unit in the last place is \<open>2^(e - p + 1)\<close> for the
  exponent \<open>e\<close> of the number, and that of \<open>emin\<close> below the normal range (subnormal
  numbers); a result of magnitude \<open>2^(emax + 1)\<close> or more overflows to an infinity.
\<close>

definition fp_round :: "nat \<Rightarrow> int \<Rightarrow> int \<Rightarrow> rat \<Rightarrow> fpval" where
  "fp_round p emin emax x =
     (if x = 0 then Finite 0
      else
        let e = max (ilog2 \<bar>x\<bar>) emin;
            ulp = pow2 (e - int p + 1);
            r = of_int (round_even (x / ulp)) * ulp
        in if pow2 (emax + 1) \<le> \<bar>r\<bar> then (if 0 < x then PInf else NInf) else Finite r)"

definition to_double :: "rat \<Rightarrow> fpval" where
  "to_double = fp_round 53 (- 1022) 1023"

definition to_float :: "rat \<Rightarrow> fpval" where
  "to_float = fp_round 24 (- 126) 127"

text \<open>\<^verbatim>\<open>static_cast<double>\<close> of a \<^verbatim>\<open>long long\<close>.\<close>

definition int64_to_double :: "64 word \<Rightarrow> fpval" where
  "int64_to_double n = to_double (of_int (sint n))"

text \<open>The conversion of a \<^verbatim>\<open>double\<close> to \<^verbatim>\<open>float\<close> (the initialisation of a \<^verbatim>\<open>float\<close>).\<close>

definition double_to_float :: "fpval \<Rightarrow> fpval" where
  "double_to_float v = (case v of Finite r \<Rightarrow> to_float r | _ \<Rightarrow> v)"

definition is_neg :: "fpval \<Rightarrow> bool" where
  "is_neg v = (case v of Finite r \<Rightarrow> r < 0 | NInf \<Rightarrow> True | _ \<Rightarrow> False)"

text \<open>The product and the quotient of two \<^verbatim>\<open>double\<close>s.\<close>

definition fmul :: "fpval \<Rightarrow> fpval \<Rightarrow> fpval" where
  "fmul x y =
     (if x = NaN \<or> y = NaN then NaN
      else case (x, y) of
        (Finite a, Finite b) \<Rightarrow> to_double (a * b)
      | _ \<Rightarrow> if x = Finite 0 \<or> y = Finite 0 then NaN
             else if is_neg x \<noteq> is_neg y then NInf else PInf)"

definition fdiv :: "fpval \<Rightarrow> fpval \<Rightarrow> fpval" where
  "fdiv x y =
     (if x = NaN \<or> y = NaN then NaN
      else case (x, y) of
        (Finite a, Finite b) \<Rightarrow>
          if b = 0 then (if a = 0 then NaN else if a < 0 then NInf else PInf)
          else to_double (a / b)
      | (Finite a, _) \<Rightarrow> Finite 0
      | (_, Finite b) \<Rightarrow> if is_neg x \<noteq> is_neg y then NInf else PInf
      | _ \<Rightarrow> NaN)"

text \<open>
  \<^verbatim>\<open>static_cast<long long>\<close> of a floating-point value: the value truncated towards
  zero. The behaviour is undefined (\<open>None\<close>) for a NaN, an infinity and a value whose
  truncation is not a \<^verbatim>\<open>long long\<close>.
\<close>

definition fp_truncate :: "rat \<Rightarrow> int" where
  "fp_truncate r = (if 0 \<le> r then \<lfloor>r\<rfloor> else \<lceil>r\<rceil>)"

definition fp_to_int64 :: "fpval \<Rightarrow> int option" where
  "fp_to_int64 v =
     (case v of
        Finite r \<Rightarrow>
          if - (2 ^ 63) \<le> fp_truncate r \<and> fp_truncate r < 2 ^ 63 then Some (fp_truncate r) else None
      | _ \<Rightarrow> None)"


text \<open>The negation of a floating-point value.\<close>

fun fneg :: "fpval \<Rightarrow> fpval" where
  "fneg (Finite r) = Finite (- r)"
| "fneg PInf = NInf"
| "fneg NInf = PInf"
| "fneg NaN = NaN"


section \<open>The text conversions of the operating system\<close>

text \<open>
  \<^verbatim>\<open>MultiByteToWideChar\<close> and \<^verbatim>\<open>WideCharToMultiByte\<close> belong to Windows, not to
  this repository. They are modelled as Windows documents them for \<^verbatim>\<open>CP_UTF8\<close> with
  flags 0: the transcoding of the Unicode standard between UTF-8 and UTF-16, an
  ill-formed unit becoming U+FFFD. Code points and code units are natural numbers here;
  the wrappers below convert from and to bytes and 16-bit words.
\<close>

definition is_cont :: "nat \<Rightarrow> bool" where
  "is_cont b \<longleftrightarrow> 0x80 \<le> b \<and> b \<le> 0xBF"

text \<open>The range of the second byte, by lead byte (Unicode, table 3-7).\<close>

definition second_lo :: "nat \<Rightarrow> nat" where
  "second_lo b0 = (if b0 = 0xE0 then 0xA0 else if b0 = 0xF0 then 0x90 else 0x80)"

definition second_hi :: "nat \<Rightarrow> nat" where
  "second_hi b0 = (if b0 = 0xED then 0x9F else if b0 = 0xF4 then 0x8F else 0xBF)"

definition is_second :: "nat \<Rightarrow> nat \<Rightarrow> bool" where
  "is_second b0 b1 \<longleftrightarrow> second_lo b0 \<le> b1 \<and> b1 \<le> second_hi b0"

fun utf8_to_cps :: "nat list \<Rightarrow> nat list" where
  "utf8_to_cps [] = []"
| "utf8_to_cps (b0 # bs) =
     (if b0 < 0x80 then b0 # utf8_to_cps bs
      else if 0xC2 \<le> b0 \<and> b0 \<le> 0xDF then
        (case bs of
           b1 # r \<Rightarrow>
             if is_cont b1 then ((b0 - 0xC0) * 64 + (b1 - 0x80)) # utf8_to_cps r
             else 0xFFFD # utf8_to_cps bs
         | _ \<Rightarrow> 0xFFFD # utf8_to_cps bs)
      else if 0xE0 \<le> b0 \<and> b0 \<le> 0xEF then
        (case bs of
           b1 # b2 # r \<Rightarrow>
             if is_second b0 b1 \<and> is_cont b2
             then ((b0 - 0xE0) * 4096 + (b1 - 0x80) * 64 + (b2 - 0x80)) # utf8_to_cps r
             else 0xFFFD # utf8_to_cps bs
         | _ \<Rightarrow> 0xFFFD # utf8_to_cps bs)
      else if 0xF0 \<le> b0 \<and> b0 \<le> 0xF4 then
        (case bs of
           b1 # b2 # b3 # r \<Rightarrow>
             if is_second b0 b1 \<and> is_cont b2 \<and> is_cont b3
             then ((b0 - 0xF0) * 262144 + (b1 - 0x80) * 4096 + (b2 - 0x80) * 64 + (b3 - 0x80))
                    # utf8_to_cps r
             else 0xFFFD # utf8_to_cps bs
         | _ \<Rightarrow> 0xFFFD # utf8_to_cps bs)
      else 0xFFFD # utf8_to_cps bs)"

definition cp_to_utf16 :: "nat \<Rightarrow> nat list" where
  "cp_to_utf16 cp =
     (if cp < 0x10000 then [cp]
      else [0xD800 + (cp - 0x10000) div 0x400, 0xDC00 + (cp - 0x10000) mod 0x400])"

fun utf16_to_cps :: "nat list \<Rightarrow> nat list" where
  "utf16_to_cps [] = []"
| "utf16_to_cps (w1 # ws) =
     (if 0xD800 \<le> w1 \<and> w1 \<le> 0xDBFF then
        (case ws of
           w2 # r \<Rightarrow>
             if 0xDC00 \<le> w2 \<and> w2 \<le> 0xDFFF
             then (0x10000 + (w1 - 0xD800) * 0x400 + (w2 - 0xDC00)) # utf16_to_cps r
             else 0xFFFD # utf16_to_cps ws
         | [] \<Rightarrow> 0xFFFD # utf16_to_cps ws)
      else if 0xDC00 \<le> w1 \<and> w1 \<le> 0xDFFF then 0xFFFD # utf16_to_cps ws
      else w1 # utf16_to_cps ws)"

definition cp_to_utf8 :: "nat \<Rightarrow> nat list" where
  "cp_to_utf8 cp =
     (if cp < 0x80 then [cp]
      else if cp < 0x800 then [0xC0 + cp div 64, 0x80 + cp mod 64]
      else if cp < 0x10000 then [0xE0 + cp div 4096, 0x80 + cp div 64 mod 64, 0x80 + cp mod 64]
      else [0xF0 + cp div 262144, 0x80 + cp div 4096 mod 64, 0x80 + cp div 64 mod 64,
            0x80 + cp mod 64])"

text \<open>
  The call protocol of both functions: a source length of 0 is an error (result 0); a
  negative one means a NUL-terminated source, the terminator converted too; a
  destination size of 0 asks for the size needed and writes nothing; a destination too
  small is an error. The result is the number of units (the size needed, or written),
  paired with what was written, if anything.
\<close>

definition MultiByteToWideChar :: "string \<Rightarrow> int \<Rightarrow> int \<Rightarrow> int \<times> wstring option" where
  "MultiByteToWideChar lpMultiByteStr cbMultiByte cchWideChar =
     (if cbMultiByte = 0 then (0, None)
      else
        let src = (if cbMultiByte < 0 then c_str lpMultiByteStr @ [CHR 0x00]
                   else take (nat cbMultiByte) lpMultiByteStr);
            out = map word_of_nat (concat (map cp_to_utf16 (utf8_to_cps (map of_char src))))
        in if cchWideChar = 0 then (int (length out), None)
           else if cchWideChar < int (length out) then (0, None)
           else (int (length out), Some out))"

definition WideCharToMultiByte :: "wstring \<Rightarrow> int \<Rightarrow> int \<Rightarrow> int \<times> string option" where
  "WideCharToMultiByte lpWideCharStr cchWideChar cbMultiByte =
     (if cchWideChar = 0 then (0, None)
      else
        let src = (if cchWideChar < 0 then wc_str lpWideCharStr @ [0]
                   else take (nat cchWideChar) lpWideCharStr);
            out = map char_of (concat (map cp_to_utf8 (utf16_to_cps (map unat src))))
        in if cbMultiByte = 0 then (int (length out), None)
           else if cbMultiByte < int (length out) then (0, None)
           else (int (length out), Some out))"


section \<open>\<^verbatim>\<open>UTF8_Encode\<close> and \<^verbatim>\<open>UTF8_Decode\<close>\<close>

text \<open>
  Both wrappers ask for the size needed, build a buffer of that many zero units and let
  the second call write into it; what the call did not write keeps its zeros.
\<close>

definition UTF8_Encode :: "wstring \<Rightarrow> string" where
  "UTF8_Encode wstr =
     (let size_needed = fst (WideCharToMultiByte wstr (size_to_int (length wstr)) 0);
          strTo = replicate (nat size_needed) (CHR 0x00)
      in case snd (WideCharToMultiByte wstr (size_to_int (length wstr)) size_needed) of
           Some out \<Rightarrow> out @ drop (length out) strTo
         | None \<Rightarrow> strTo)"

definition UTF8_Decode :: "string \<Rightarrow> wstring" where
  "UTF8_Decode str =
     (let size_needed = fst (MultiByteToWideChar str (size_to_int (length str)) 0);
          wstrTo = replicate (nat size_needed) 0
      in case snd (MultiByteToWideChar str (size_to_int (length str)) size_needed) of
           Some out \<Rightarrow> out @ drop (length out) wstrTo
         | None \<Rightarrow> wstrTo)"


text \<open>
  A well-formed UTF-8 string, as the Unicode standard defines it (table 3-7): the strings
  the round trip is claimed for. No well-formed string encodes a surrogate code point,
  paired or not.
\<close>

fun well_formed_utf8 :: "nat list \<Rightarrow> bool" where
  "well_formed_utf8 [] = True"
| "well_formed_utf8 (b0 # bs) =
     (if b0 < 0x80 then well_formed_utf8 bs
      else if 0xC2 \<le> b0 \<and> b0 \<le> 0xDF then
        (case bs of b1 # r \<Rightarrow> is_cont b1 \<and> well_formed_utf8 r | _ \<Rightarrow> False)
      else if 0xE0 \<le> b0 \<and> b0 \<le> 0xEF then
        (case bs of
           b1 # b2 # r \<Rightarrow> is_second b0 b1 \<and> is_cont b2 \<and> well_formed_utf8 r
         | _ \<Rightarrow> False)
      else if 0xF0 \<le> b0 \<and> b0 \<le> 0xF4 then
        (case bs of
           b1 # b2 # b3 # r \<Rightarrow>
             is_second b0 b1 \<and> is_cont b2 \<and> is_cont b3 \<and> well_formed_utf8 r
         | _ \<Rightarrow> False)
      else False)"

text \<open>A Unicode scalar value: a code point that is not a surrogate.\<close>

definition scalar :: "nat \<Rightarrow> bool" where
  "scalar cp \<longleftrightarrow> cp < 0x110000 \<and> \<not> (0xD800 \<le> cp \<and> cp \<le> 0xDFFF)"


section \<open>\<^verbatim>\<open>SystemDialog\<close>\<close>

text \<open>
  The constants of \<^verbatim>\<open>windows.h\<close> that the function names, with the values of the
  Windows SDK.
\<close>

definition MB_OK :: "32 word" where "MB_OK = 0x00"
definition MB_OKCANCEL :: "32 word" where "MB_OKCANCEL = 0x01"
definition MB_YESNO :: "32 word" where "MB_YESNO = 0x04"
definition MB_ICONERROR :: "32 word" where "MB_ICONERROR = 0x10"
definition MB_ICONQUESTION :: "32 word" where "MB_ICONQUESTION = 0x20"
definition MB_ICONWARNING :: "32 word" where "MB_ICONWARNING = 0x30"
definition MB_ICONINFORMATION :: "32 word" where "MB_ICONINFORMATION = 0x40"

definition IDOK :: int where "IDOK = 1"
definition IDCANCEL :: int where "IDCANCEL = 2"
definition IDYES :: int where "IDYES = 6"
definition IDNO :: int where "IDNO = 7"

text \<open>The first \<^verbatim>\<open>switch\<close>: the icon and the button set of a dialog type.\<close>

fun windowsType :: "SystemDialogType \<Rightarrow> 32 word" where
  "windowsType SDT_INFO = MB_ICONINFORMATION OR MB_OK"
| "windowsType SDT_WARNING = MB_ICONWARNING OR MB_OK"
| "windowsType SDT_ERROR = MB_ICONERROR OR MB_OK"
| "windowsType SDT_YES_NO = MB_ICONQUESTION OR MB_YESNO"
| "windowsType SDT_OK_CANCEL = MB_ICONWARNING OR MB_OKCANCEL"

text \<open>
  \<^verbatim>\<open>MessageBoxW\<close> is the operating system's: a parameter, from the message, the title
  and the type flags to the code it returns. It receives \<^verbatim>\<open>windowsMessage.c_str()\<close> and
  \<^verbatim>\<open>windowsTitle.c_str()\<close>: each string up to its first NUL.
\<close>

definition SystemDialog ::
  "(wstring \<Rightarrow> wstring \<Rightarrow> 32 word \<Rightarrow> int) \<Rightarrow> SystemDialogType \<Rightarrow> string \<Rightarrow> string
     \<Rightarrow> SystemDialogResult" where
  "SystemDialog MessageBoxW type title message =
     (let windowsMessage = UTF8_Decode message;
          windowsTitle = UTF8_Decode title;
          code = MessageBoxW (wc_str windowsMessage) (wc_str windowsTitle) (windowsType type)
      in if code = IDOK then SDR_OK
         else if code = IDCANCEL then SDR_CANCEL
         else if code = IDYES then SDR_YES
         else if code = IDNO then SDR_NO
         else SDR_OK)"

text \<open>
  What Windows documents for \<^verbatim>\<open>MessageBoxW\<close>: the button set is the low four bits of
  the type flags, and a box that was shown returns the identifier of one of its buttons
  (0 is the failure code, returned when no box could be shown).
\<close>

definition button_codes :: "32 word \<Rightarrow> int set" where
  "button_codes uType =
     (let buttons = uType AND 0x0F
      in if buttons = MB_OK then {IDOK}
         else if buttons = MB_OKCANCEL then {IDOK, IDCANCEL}
         else if buttons = MB_YESNO then {IDYES, IDNO}
         else {})"

text \<open>
  The results that the button set of a dialog type stands for, in the words of the
  specification: one button OK; the buttons Yes and No; the buttons OK and Cancel.
\<close>

fun button_results :: "SystemDialogType \<Rightarrow> SystemDialogResult set" where
  "button_results SDT_INFO = {SDR_OK}"
| "button_results SDT_WARNING = {SDR_OK}"
| "button_results SDT_ERROR = {SDR_OK}"
| "button_results SDT_YES_NO = {SDR_YES, SDR_NO}"
| "button_results SDT_OK_CANCEL = {SDR_OK, SDR_CANCEL}"



section \<open>\<^verbatim>\<open>Init\<close>\<close>

text \<open>
  \<^verbatim>\<open>QueryPerformanceFrequency\<close> is the operating system's: the parameter is the value
  it stores into \<^verbatim>\<open>freq.QuadPart\<close>. \<^verbatim>\<open>assert\<close> is the macro of \<^verbatim>\<open><cassert>\<close>: it
  aborts the process when its condition is false, and expands to nothing when the file is
  compiled with \<^verbatim>\<open>NDEBUG\<close> defined. A call of \<^verbatim>\<open>Init\<close> either aborts or returns with
  the object's new state.
\<close>

datatype 'a outcome = Aborted | Returned 'a

definition Init :: "bool \<Rightarrow> 64 word \<Rightarrow> CSystemUtilsWindows \<Rightarrow> CSystemUtilsWindows outcome" where
  "Init NDEBUG QueryPerformanceFrequency this =
     (let this' = this\<lparr>m_counterFrequency := QueryPerformanceFrequency\<rparr>
      in if \<not> NDEBUG \<and> \<not> (m_counterFrequency this' \<noteq> 0) then Aborted else Returned this')"


section \<open>\<^verbatim>\<open>InterpolateTimeStamp\<close> and \<^verbatim>\<open>TimeStampExactDiff\<close>\<close>

text \<open>
  The subtraction and the addition of \<^verbatim>\<open>long long\<close> values wrap around (two's
  complement). The result is \<open>None\<close> where the conversion back to \<^verbatim>\<open>long long\<close> is
  undefined. \<^verbatim>\<open>static_cast<double>(i)\<close> of the \<^verbatim>\<open>float\<close> \<open>i\<close> is exact.
\<close>

definition InterpolateTimeStamp ::
  "SystemTimeStamp \<Rightarrow> SystemTimeStamp \<Rightarrow> SystemTimeStamp \<Rightarrow> fpval \<Rightarrow> SystemTimeStamp option" where
  "InterpolateTimeStamp dst a b i =
     (case fp_to_int64 (fmul (int64_to_double (counterValue b - counterValue a)) i) of
        None \<Rightarrow> None
      | Some t \<Rightarrow> Some (dst\<lparr>counterValue := counterValue a + word_of_int t\<rparr>))"

definition TimeStampExactDiff ::
  "CSystemUtilsWindows \<Rightarrow> SystemTimeStamp \<Rightarrow> SystemTimeStamp \<Rightarrow> int option" where
  "TimeStampExactDiff this before after =
     (let floatValue =
            double_to_float
              (fmul (int64_to_double (counterValue after - counterValue before))
                    (fdiv (Finite 1000000000) (int64_to_double (m_counterFrequency this))))
      in fp_to_int64 floatValue)"


section \<open>\<^verbatim>\<open>GetEnvVar\<close> and \<^verbatim>\<open>GetSaveDir\<close>\<close>

text \<open>
  \<^verbatim>\<open>std::wstring wname(name.begin(), name.end())\<close> converts each \<^verbatim>\<open>char\<close>, a signed
  byte for the compilers of Windows, to \<^verbatim>\<open>wchar_t\<close>. \<^verbatim>\<open>_wgetenv\<close> is the operating
  system's: a parameter, \<open>None\<close> standing for the null pointer.
\<close>

definition widen :: "char \<Rightarrow> wchar_t" where
  "widen c = scast (word_of_nat (of_char c) :: 8 word)"

definition GetEnvVar :: "(wstring \<Rightarrow> wstring option) \<Rightarrow> string \<Rightarrow> Logger \<Rightarrow> string \<times> Logger" where
  "GetEnvVar wgetenv name lg =
     (let wname = map widen name
      in case wgetenv (wc_str wname) of
           None \<Rightarrow> ([], lg)
         | Some envVar \<Rightarrow>
             let var = UTF8_Encode (wc_str envVar)
             in (var, Trace (''Detected environment variable %s = %s'' @ [CHR 0x0A])
                        [ArgStr (c_str name), ArgStr (c_str var)] lg))"

text \<open>
  \<^verbatim>\<open>PORTABLE_SAVES\<close> and \<^verbatim>\<open>DEV_BUILD\<close> are the build's preprocessor flags.
  \<^verbatim>\<open>CSystemUtils::GetSaveDir()\<close>, the platform-neutral default of the base class, is not
  in this file: the parameter is the directory it returns.
\<close>

definition GetSaveDir ::
  "bool \<Rightarrow> bool \<Rightarrow> string \<Rightarrow> (wstring \<Rightarrow> wstring option) \<Rightarrow> Logger \<Rightarrow> string \<times> Logger" where
  "GetSaveDir PORTABLE_SAVES DEV_BUILD CSystemUtils_GetSaveDir wgetenv lg =
     (if PORTABLE_SAVES \<or> DEV_BUILD then (CSystemUtils_GetSaveDir, lg)
      else
        let (envUSERPROFILE, lg1) = GetEnvVar wgetenv ''USERPROFILE'' lg;
            (savegameDir, lg2) =
              (if envUSERPROFILE = []
               then (CSystemUtils_GetSaveDir,
                     Warn ''Unable to find directory for saves - using default directory'' [] lg1)
               else (envUSERPROFILE @ CHR 0x5C # ''colobot'', lg1))
        in (savegameDir,
            Trace (''Saved game files are going to %s'' @ [CHR 0x0A]) [ArgStr (c_str savegameDir)]
              lg2))"


section \<open>\<^verbatim>\<open>OpenPath\<close> and \<^verbatim>\<open>OpenWebsite\<close>\<close>

text \<open>
  \<^verbatim>\<open>system\<close> is the C library's: a parameter, from the command line to the exit code
  it returns. \<^verbatim>\<open>boost::filesystem::path(path).make_preferred().string()\<close> is the Boost
  library's: a parameter too.
\<close>

definition OpenPath ::
  "(string \<Rightarrow> int) \<Rightarrow> (string \<Rightarrow> string) \<Rightarrow> string \<Rightarrow> Logger \<Rightarrow> bool \<times> Logger" where
  \<open>OpenPath system make_preferred path lg =
     (let result = system (c_str (''start explorer "'' @ make_preferred path @ ''"''))
      in if result \<noteq> 0
         then (False, Error (''Failed to open path: %s, error code: %i'' @ [CHR 0x0A])
                        [ArgStr (c_str path), ArgInt result] lg)
         else (True, lg))\<close>

definition OpenWebsite :: "(string \<Rightarrow> int) \<Rightarrow> string \<Rightarrow> Logger \<Rightarrow> bool \<times> Logger" where
  \<open>OpenWebsite system url lg =
     (let result = system (c_str (''rundll32 url.dll,FileProtocolHandler "'' @ url @ ''"''))
      in if result \<noteq> 0
         then (False, Error (''Failed to open website: %s, error code: %i'' @ [CHR 0x0A])
                        [ArgStr (c_str url), ArgInt result] lg)
         else (True, lg))\<close>


section \<open>Theorems\<close>

subsection \<open>Rounding\<close>

text \<open>
  Powers of two, the binary exponent, and the two facts about rounding that the claims
  need: rounding commutes with negation, and a number inside the exponent range is
  rounded with a relative error of at most \<open>2^-p\<close>; an integer of at most \<open>p\<close> bits is
  not changed.
\<close>

lemma pow2_powi: "pow2 k = 2 powi k"
  by (simp add: pow2_def power_int_def field_simps)

lemma pow2_pos [simp]: "0 < pow2 k"
  by (simp add: pow2_powi)

lemma pow2_add: "pow2 (a + b) = pow2 a * pow2 b"
  by (simp add: pow2_powi power_int_add)

lemma pow2_0 [simp]: "pow2 0 = 1"
  by (simp add: pow2_def)

lemma pow2_1 [simp]: "pow2 1 = 2"
  by (simp add: pow2_def)

lemma pow2_m1 [simp]: "pow2 (- 1) = 1 / 2"
  by (simp add: pow2_def)

lemma pow2_plus1: "pow2 (k + 1) = 2 * pow2 k"
  by (simp add: pow2_add)

lemma pow2_minus1: "pow2 (k - 1) = pow2 k / 2"
  using pow2_add [of k "- 1"] by simp

lemma pow2_nat: "pow2 (int n) = 2 ^ n"
  by (simp add: pow2_def)

lemma pow2_numeral [simp]: "pow2 (numeral n) = 2 ^ numeral n"
  by (simp add: pow2_def)

lemma pow2_neg_numeral [simp]: "pow2 (- numeral n) = 1 / 2 ^ numeral n"
  by (simp add: pow2_def)

lemma pow2_mono: "a \<le> b \<Longrightarrow> pow2 a \<le> pow2 b"
  by (simp add: pow2_powi power_int_increasing)

lemma pow2_strict_mono: "a < b \<Longrightarrow> pow2 a < pow2 b"
  by (simp add: pow2_powi power_int_strict_increasing)

lemma pow2_le_iff: "pow2 a \<le> pow2 b \<longleftrightarrow> a \<le> b"
  using pow2_mono [of a b] pow2_strict_mono [of b a] by (auto simp: not_le [symmetric])

lemma pow2_less_iff: "pow2 a < pow2 b \<longleftrightarrow> a < b"
  using pow2_mono [of b a] pow2_strict_mono [of a b] by (auto simp: not_less [symmetric])

lemma ilog2_bounds: "0 < x \<Longrightarrow> pow2 (ilog2 x) \<le> x \<and> x < pow2 (ilog2 x + 1)"
proof (induction x rule: ilog2.induct)
  case (1 x)
  show ?case
  proof (cases "x < 1")
    case True
    with 1 have ih: "pow2 (ilog2 (2 * x)) \<le> 2 * x \<and> 2 * x < pow2 (ilog2 (2 * x) + 1)"
      by simp
    have eq: "ilog2 x = ilog2 (2 * x) - 1"
      using True 1(3) by (subst ilog2.simps) simp
    have "pow2 (ilog2 (2 * x) - 1) = pow2 (ilog2 (2 * x)) / 2"
      by (rule pow2_minus1)
    moreover have "pow2 (ilog2 (2 * x) - 1 + 1) = pow2 (ilog2 (2 * x))"
      by simp
    moreover have "pow2 (ilog2 (2 * x) + 1) = 2 * pow2 (ilog2 (2 * x))"
      by (rule pow2_plus1)
    ultimately show ?thesis
      using ih unfolding eq by simp
  next
    case False
    show ?thesis
    proof (cases "2 \<le> x")
      case True
      with 1 False have ih: "pow2 (ilog2 (x / 2)) \<le> x / 2 \<and> x / 2 < pow2 (ilog2 (x / 2) + 1)"
        by simp
      have eq: "ilog2 x = ilog2 (x / 2) + 1"
        using True False 1(3) by (subst ilog2.simps) simp
      have "pow2 (ilog2 (x / 2) + 1 + 1) = 2 * pow2 (ilog2 (x / 2) + 1)"
        by (rule pow2_plus1)
      moreover have "pow2 (ilog2 (x / 2) + 1) = 2 * pow2 (ilog2 (x / 2))"
        by (rule pow2_plus1)
      ultimately show ?thesis
        using ih unfolding eq by simp
    next
      case F2: False
      have eq: "ilog2 x = 0"
        using F2 False 1(3) by (subst ilog2.simps) simp
      show ?thesis using F2 False unfolding eq by simp
    qed
  qed
qed

lemma ilog2_unique:
  assumes "pow2 e \<le> x" "x < pow2 (e + 1)"
  shows "ilog2 x = e"
proof -
  have x: "0 < x" using assms(1) pow2_pos [of e] by linarith
  note b = ilog2_bounds [OF x]
  have "pow2 e < pow2 (ilog2 x + 1)" using assms b by linarith
  then have 1: "e < ilog2 x + 1" by (simp add: pow2_less_iff)
  have "pow2 (ilog2 x) < pow2 (e + 1)" using assms b by linarith
  then have 2: "ilog2 x < e + 1" by (simp add: pow2_less_iff)
  show ?thesis using 1 2 by simp
qed

lemma round_even_error: "\<bar>of_int (round_even y) - y\<bar> \<le> 1 / 2"
proof -
  have "of_int \<lfloor>y\<rfloor> \<le> y" "y < of_int \<lfloor>y\<rfloor> + 1" by linarith+
  then show ?thesis
    by (auto simp: round_even_def Let_def abs_le_iff)
qed

lemma round_even_of_int [simp]: "round_even (of_int n) = n"
  by (simp add: round_even_def)

lemma round_even_minus: "round_even (- y) = - round_even y"
proof (cases "y \<in> \<int>")
  case True
  then obtain n where "y = of_int n" by (auto elim: Ints_cases)
  then show ?thesis using round_even_of_int [of "- n"] by simp
next
  case False
  then have fr: "y \<noteq> of_int \<lfloor>y\<rfloor>"
    by (metis Ints_of_int)
  then have fl: "\<lfloor>- y\<rfloor> = - \<lfloor>y\<rfloor> - 1"
    by (simp add: floor_minus ceiling_altdef)
  show ?thesis
    unfolding round_even_def Let_def fl
    using fr by (auto simp: field_simps)
qed

lemma pow2_nonzero [simp]: "pow2 k \<noteq> 0"
  by (metis pow2_pos less_irrefl)

lemma fp_round_minus: "fp_round p emin emax (- x) = fneg (fp_round p emin emax x)"
  by (simp add: fp_round_def Let_def round_even_minus)

lemma ilog2_ge:
  assumes "pow2 k \<le> x"
  shows "k \<le> ilog2 x"
proof -
  have x: "0 < x" using assms pow2_pos [of k] by linarith
  have "pow2 k < pow2 (ilog2 x + 1)" using ilog2_bounds [OF x] assms by linarith
  then show ?thesis by (simp add: pow2_less_iff)
qed

lemma ilog2_less:
  assumes "0 < x" "x < pow2 k"
  shows "ilog2 x < k"
proof -
  have "pow2 (ilog2 x) < pow2 k" using ilog2_bounds [OF assms(1)] assms(2) by linarith
  then show ?thesis by (simp add: pow2_less_iff)
qed

lemma fp_round_rel_error:
  assumes x: "x \<noteq> 0" and lo: "pow2 emin \<le> \<bar>x\<bar>" and hi: "\<bar>x\<bar> < pow2 emax" and p: "0 < p"
  shows "\<exists>r. fp_round p emin emax x = Finite r \<and> \<bar>r - x\<bar> \<le> \<bar>x\<bar> / 2 ^ p"
proof -
  define e where "e = ilog2 \<bar>x\<bar>"
  define u where "u = pow2 (e - int p + 1)"
  define r where "r = of_int (round_even (x / u)) * u"
  have ax: "0 < \<bar>x\<bar>" using x by simp
  have e_ge: "emin \<le> e" unfolding e_def by (rule ilog2_ge [OF lo])
  have u_pos: "0 < u" by (simp add: u_def)
  have b: "pow2 e \<le> \<bar>x\<bar>" using ilog2_bounds [OF ax] by (simp add: e_def)
  have "pow2 e = pow2 (e - int p + 1) * pow2 (int p - 1)"
    by (simp add: pow2_add [symmetric])
  also have "pow2 (int p - 1) = 2 ^ p / 2"
    using pow2_minus1 [of "int p"] by (simp add: pow2_nat)
  finally have ue: "u / 2 = pow2 e / 2 ^ p" by (simp add: u_def)
  have "r - x = (of_int (round_even (x / u)) - x / u) * u"
    using u_pos by (simp add: r_def left_diff_distrib)
  then have "\<bar>r - x\<bar> = \<bar>of_int (round_even (x / u)) - x / u\<bar> * u"
    using u_pos by (simp add: abs_mult)
  also have "\<dots> \<le> (1 / 2) * u"
    using round_even_error [of "x / u"] u_pos by (intro mult_right_mono) simp_all
  finally have err: "\<bar>r - x\<bar> \<le> pow2 e / 2 ^ p" using ue by simp
  also have "\<dots> \<le> \<bar>x\<bar> / 2 ^ p" using b by (simp add: divide_right_mono)
  finally have rel: "\<bar>r - x\<bar> \<le> \<bar>x\<bar> / 2 ^ p" .
  have "\<bar>x\<bar> / 2 ^ p \<le> \<bar>x\<bar>" using ax by (simp add: field_simps)
  then have "\<bar>r\<bar> \<le> 2 * \<bar>x\<bar>" using rel by linarith
  also have "\<dots> < 2 * pow2 emax" using hi by simp
  finally have no_ovf: "\<not> pow2 (emax + 1) \<le> \<bar>r\<bar>" by (simp add: pow2_plus1)
  have "fp_round p emin emax x = Finite r"
    using x e_ge no_ovf
    by (simp add: fp_round_def Let_def e_def [symmetric] max_absorb1 u_def [symmetric] r_def [symmetric])
  then show ?thesis using rel by blast
qed

lemma fp_round_exact:
  assumes x: "x \<noteq> 0" and lo: "emin \<le> ilog2 \<bar>x\<bar>"
    and int: "x / pow2 (ilog2 \<bar>x\<bar> - int p + 1) \<in> \<int>"
    and hi: "\<bar>x\<bar> < pow2 (emax + 1)"
  shows "fp_round p emin emax x = Finite x"
proof -
  obtain n where n: "x / pow2 (ilog2 \<bar>x\<bar> - int p + 1) = of_int n"
    using int by (auto elim: Ints_cases)
  have "of_int (round_even (x / pow2 (ilog2 \<bar>x\<bar> - int p + 1))) * pow2 (ilog2 \<bar>x\<bar> - int p + 1) = x"
    unfolding n round_even_of_int unfolding n [symmetric] by simp
  then show ?thesis
    using x lo hi by (simp add: fp_round_def Let_def max_absorb1)
qed

lemma fp_round_of_int:
  assumes n: "\<bar>n\<bar> \<le> 2 ^ p" and emin: "emin \<le> 0" and emax: "int p \<le> emax" and p: "0 < p"
  shows "fp_round p emin emax (of_int n) = Finite (of_int n)"
proof (cases "n = 0")
  case True
  then show ?thesis by (simp add: fp_round_def)
next
  case False
  define x :: rat where "x = of_int n"
  define e where "e = ilog2 \<bar>x\<bar>"
  have x0: "x \<noteq> 0" using False by (simp add: x_def)
  have ax1: "1 \<le> \<bar>x\<bar>" using False unfolding x_def
    by (metis abs_ge_zero of_int_abs of_int_1_le_iff zero_less_abs_iff zless_imp_add1_zle zero_less_one add_0 less_le)
  have axp: "\<bar>x\<bar> \<le> 2 ^ p" using n unfolding x_def
    by (metis of_int_abs of_int_le_iff of_int_numeral of_int_power)
  have e0: "0 \<le> e" unfolding e_def using ilog2_ge [of 0 "\<bar>x\<bar>"] ax1 by simp
  have ep: "e \<le> int p"
  proof -
    have "pow2 e \<le> \<bar>x\<bar>" using ilog2_bounds [of "\<bar>x\<bar>"] x0 by (simp add: e_def)
    then have "pow2 e \<le> pow2 (int p)" using axp by (simp add: pow2_nat)
    then show ?thesis by (simp add: pow2_le_iff)
  qed
  have hi: "\<bar>x\<bar> < pow2 (emax + 1)"
  proof -
    have "\<bar>x\<bar> \<le> pow2 (int p)" using axp by (simp add: pow2_nat)
    also have "\<dots> < pow2 (emax + 1)" using emax by (simp add: pow2_less_iff)
    finally show ?thesis .
  qed
  have int: "x / pow2 (e - int p + 1) \<in> \<int>"
  proof (cases "e = int p")
    case True
    then have "pow2 (int p) \<le> \<bar>x\<bar>" using ilog2_bounds [of "\<bar>x\<bar>"] x0 by (simp add: e_def)
    then have "\<bar>x\<bar> = 2 ^ p" using axp by (simp add: pow2_nat)
    then have "x = 2 ^ p \<or> x = - (2 ^ p)" by (auto simp: abs_if split: if_splits)
    moreover have "(2::rat) ^ p / 2 = 2 ^ (p - 1)" using p by (cases p) simp_all
    ultimately show ?thesis using True by auto
  next
    case False
    then have "e - int p + 1 \<le> 0" using ep by simp
    then have "pow2 (e - int p + 1) = 1 / 2 ^ nat (int p - 1 - e)"
      by (auto simp: pow2_def intro: arg_cong)
    then show ?thesis by (simp add: x_def)
  qed
  show ?thesis
    using fp_round_exact [of x emin p emax] x0 e0 emin int hi
    by (simp add: e_def x_def)
qed

lemma to_double_of_int: "\<bar>n\<bar> \<le> 2 ^ 53 \<Longrightarrow> to_double (of_int n) = Finite (of_int n)"
  unfolding to_double_def by (rule fp_round_of_int) simp_all

lemma to_float_of_int: "\<bar>n\<bar> \<le> 2 ^ 24 \<Longrightarrow> to_float (of_int n) = Finite (of_int n)"
  unfolding to_float_def by (rule fp_round_of_int) simp_all

lemma rel_bounds:
  fixes x y e :: rat
  assumes "\<bar>y - x\<bar> \<le> e * \<bar>x\<bar>"
  shows "\<bar>y\<bar> \<le> (1 + e) * \<bar>x\<bar>" and "(1 - e) * \<bar>x\<bar> \<le> \<bar>y\<bar>"
  using assms by (auto simp: algebra_simps abs_le_iff abs_if split: if_splits)

lemma rel_weaken:
  fixes x y e e' :: rat
  assumes "\<bar>y - x\<bar> \<le> e * \<bar>x\<bar>" "e \<le> e'"
  shows "\<bar>y - x\<bar> \<le> e' * \<bar>x\<bar>"
proof -
  have "e * \<bar>x\<bar> \<le> e' * \<bar>x\<bar>" using assms(2) by (simp add: mult_right_mono)
  then show ?thesis using assms(1) by linarith
qed

lemma rel_trans:
  fixes x y z e1 e2 :: rat
  assumes xy: "\<bar>y - x\<bar> \<le> e1 * \<bar>x\<bar>" and yz: "\<bar>z - y\<bar> \<le> e2 * \<bar>y\<bar>" and e2: "0 \<le> e2"
  shows "\<bar>z - x\<bar> \<le> (e1 + e2 + e1 * e2) * \<bar>x\<bar>"
proof -
  have "\<bar>y\<bar> \<le> (1 + e1) * \<bar>x\<bar>" using rel_bounds(1) [OF xy] .
  then have "e2 * \<bar>y\<bar> \<le> e2 * ((1 + e1) * \<bar>x\<bar>)" using e2 by (rule mult_left_mono)
  then have "\<bar>z - y\<bar> \<le> (e2 + e1 * e2) * \<bar>x\<bar>" using yz by (simp add: algebra_simps)
  moreover have "\<bar>z - x\<bar> \<le> \<bar>z - y\<bar> + \<bar>y - x\<bar>" by linarith
  ultimately show ?thesis using xy by (simp add: algebra_simps)
qed

lemma rel_mult:
  fixes x1 x2 y1 y2 e1 e2 :: rat
  assumes 1: "\<bar>y1 - x1\<bar> \<le> e1 * \<bar>x1\<bar>" and 2: "\<bar>y2 - x2\<bar> \<le> e2 * \<bar>x2\<bar>"
    and e1: "0 \<le> e1" and e2: "0 \<le> e2"
  shows "\<bar>y1 * y2 - x1 * x2\<bar> \<le> (e1 + e2 + e1 * e2) * \<bar>x1 * x2\<bar>"
proof -
  have eq: "y1 * y2 - x1 * x2 = (y1 - x1) * x2 + x1 * (y2 - x2) + (y1 - x1) * (y2 - x2)"
    by (simp add: algebra_simps)
  have a: "\<bar>(y1 - x1) * x2\<bar> \<le> (e1 * \<bar>x1\<bar>) * \<bar>x2\<bar>"
    unfolding abs_mult using 1 by (intro mult_right_mono) simp_all
  have b: "\<bar>x1 * (y2 - x2)\<bar> \<le> \<bar>x1\<bar> * (e2 * \<bar>x2\<bar>)"
    unfolding abs_mult using 2 by (intro mult_left_mono) simp_all
  have c: "\<bar>(y1 - x1) * (y2 - x2)\<bar> \<le> (e1 * \<bar>x1\<bar>) * (e2 * \<bar>x2\<bar>)"
    unfolding abs_mult using 1 2 e1 e2 by (intro mult_mono) simp_all
  have "\<bar>y1 * y2 - x1 * x2\<bar> \<le> \<bar>(y1 - x1) * x2\<bar> + \<bar>x1 * (y2 - x2)\<bar> + \<bar>(y1 - x1) * (y2 - x2)\<bar>"
    unfolding eq by linarith
  then show ?thesis using a b c by (simp add: algebra_simps abs_mult)
qed

lemma rel_inverse:
  fixes x y e c :: rat
  assumes xy: "\<bar>y - x\<bar> \<le> e * \<bar>x\<bar>" and e: "0 \<le> e" "e \<le> 1 / 2" and x: "x \<noteq> 0"
  shows "y \<noteq> 0" and "\<bar>c / y - c / x\<bar> \<le> (2 * e) * \<bar>c / x\<bar>"
proof -
  have ax: "0 < \<bar>x\<bar>" using x by simp
  have lo: "(1 - e) * \<bar>x\<bar> \<le> \<bar>y\<bar>" using rel_bounds(2) [OF xy] .
  have "(1 / 2) * \<bar>x\<bar> \<le> (1 - e) * \<bar>x\<bar>" using e by (intro mult_right_mono) simp_all
  then have half: "\<bar>x\<bar> / 2 \<le> \<bar>y\<bar>" using lo by simp
  then have ay: "0 < \<bar>y\<bar>" using ax by linarith
  then show y: "y \<noteq> 0" by simp
  have "c / y - c / x = c * (x - y) / (x * y)" using x y by (simp add: field_simps)
  then have "\<bar>c / y - c / x\<bar> = \<bar>c\<bar> * \<bar>y - x\<bar> / (\<bar>x\<bar> * \<bar>y\<bar>)"
    by (simp add: abs_mult abs_minus_commute)
  also have "\<dots> \<le> \<bar>c\<bar> * (e * \<bar>x\<bar>) / (\<bar>x\<bar> * \<bar>y\<bar>)"
    using xy ax ay by (intro divide_right_mono mult_left_mono) simp_all
  also have "\<dots> = \<bar>c\<bar> * e / \<bar>y\<bar>" using ax by simp
  also have "\<dots> \<le> \<bar>c\<bar> * e / (\<bar>x\<bar> / 2)"
    using half ax e by (intro divide_left_mono mult_nonneg_nonneg mult_pos_pos) simp_all
  also have "\<dots> = (2 * e) * \<bar>c / x\<bar>" by (simp add: abs_divide)
  finally show "\<bar>c / y - c / x\<bar> \<le> (2 * e) * \<bar>c / x\<bar>" .
qed

lemma to_double_rel:
  assumes "x = 0 \<or> 1 / 2 ^ 100 \<le> \<bar>x\<bar> \<and> \<bar>x\<bar> \<le> 2 ^ 100"
  shows "\<exists>r. to_double x = Finite r \<and> \<bar>r - x\<bar> \<le> (1 / 2 ^ 53) * \<bar>x\<bar>"
proof (cases "x = 0")
  case True
  then show ?thesis by (simp add: to_double_def fp_round_def)
next
  case False
  with assms have r: "1 / 2 ^ 100 \<le> \<bar>x\<bar>" "\<bar>x\<bar> \<le> 2 ^ 100" by simp_all
  have "pow2 (- 1022) \<le> pow2 (- 100)" by (rule pow2_mono) simp
  then have lo: "pow2 (- 1022) \<le> \<bar>x\<bar>" using r(1) by simp
  have "pow2 100 < pow2 1023" by (rule pow2_strict_mono) simp
  then have hi: "\<bar>x\<bar> < pow2 1023" using r(2) by simp
  show ?thesis
    using fp_round_rel_error [OF False lo hi, of 53] by (simp add: to_double_def)
qed

lemma to_float_rel:
  assumes "x = 0 \<or> 1 / 2 ^ 100 \<le> \<bar>x\<bar> \<and> \<bar>x\<bar> \<le> 2 ^ 100"
  shows "\<exists>r. to_float x = Finite r \<and> \<bar>r - x\<bar> \<le> (1 / 2 ^ 24) * \<bar>x\<bar>"
proof (cases "x = 0")
  case True
  then show ?thesis by (simp add: to_float_def fp_round_def)
next
  case False
  with assms have r: "1 / 2 ^ 100 \<le> \<bar>x\<bar>" "\<bar>x\<bar> \<le> 2 ^ 100" by simp_all
  have "pow2 (- 126) \<le> pow2 (- 100)" by (rule pow2_mono) simp
  then have lo: "pow2 (- 126) \<le> \<bar>x\<bar>" using r(1) by simp
  have "pow2 100 < pow2 127" by (rule pow2_strict_mono) simp
  then have hi: "\<bar>x\<bar> < pow2 127" using r(2) by simp
  show ?thesis
    using fp_round_rel_error [OF False lo hi, of 24] by (simp add: to_float_def)
qed

lemma sint64_bounds: "- (2 ^ 63) \<le> sint (w :: 64 word)" "sint (w :: 64 word) < 2 ^ 63"
  using sint_range_size [of w] by (simp_all add: word_size)

lemma int64_to_double_rel:
  "\<exists>d. int64_to_double w = Finite d \<and> \<bar>d - of_int (sint w)\<bar> \<le> (1 / 2 ^ 53) * \<bar>of_int (sint w)\<bar>"
proof -
  have "\<bar>sint w\<bar> \<le> 2 ^ 63" using sint64_bounds [of w] by simp
  then have "\<bar>of_int (sint w) :: rat\<bar> \<le> 2 ^ 63"
    by (metis of_int_abs of_int_le_iff of_int_numeral of_int_power)
  then have hi: "\<bar>of_int (sint w) :: rat\<bar> \<le> 2 ^ 100" by simp
  have lo: "sint w \<noteq> 0 \<Longrightarrow> 1 / 2 ^ 100 \<le> \<bar>of_int (sint w) :: rat\<bar>"
  proof -
    assume "sint w \<noteq> 0"
    then have "1 \<le> \<bar>sint w\<bar>" by simp
    then have "(1::rat) \<le> \<bar>of_int (sint w)\<bar>"
      by (metis of_int_abs of_int_1_le_iff)
    then show ?thesis by simp
  qed
  have "of_int (sint w) = (0::rat) \<or>
        1 / 2 ^ 100 \<le> \<bar>of_int (sint w) :: rat\<bar> \<and> \<bar>of_int (sint w) :: rat\<bar> \<le> 2 ^ 100"
  proof (cases "sint w = 0")
    case True
    then show ?thesis by (simp only: of_int_0 simp_thms)
  next
    case False
    then show ?thesis using lo hi by blast
  qed
  then show ?thesis
    unfolding int64_to_double_def by (rule to_double_rel)
qed

lemma fp_truncate_error: "\<bar>of_int (fp_truncate r) - r\<bar> < 1"
  unfolding fp_truncate_def by (auto simp: abs_less_iff; linarith)

lemma fp_truncate_abs_le: "\<bar>of_int (fp_truncate r) :: rat\<bar> \<le> \<bar>r\<bar>"
proof (cases "0 \<le> r")
  case True
  then have "0 \<le> \<lfloor>r\<rfloor>" by simp
  moreover have "of_int \<lfloor>r\<rfloor> \<le> r" by simp
  ultimately show ?thesis using True by (simp add: fp_truncate_def)
next
  case False
  then have "\<lceil>r\<rceil> \<le> 0" by (simp add: ceiling_le_zero)
  moreover have "r \<le> of_int \<lceil>r\<rceil>" by simp
  ultimately show ?thesis using False by (simp add: fp_truncate_def)
qed

lemma fp_truncate_minus: "fp_truncate (- r) = - fp_truncate r"
  unfolding fp_truncate_def by (auto simp: ceiling_minus floor_minus) 

lemma fp_truncate_of_int [simp]: "fp_truncate (of_int n) = n"
  by (simp add: fp_truncate_def)

lemma of_int_sint64_abs_le: "\<bar>of_int (sint (w :: 64 word)) :: rat\<bar> \<le> 2 ^ 63"
proof -
  have "\<bar>sint w\<bar> \<le> 2 ^ 63" using sint64_bounds [of w] by simp
  then show ?thesis by (metis of_int_abs of_int_le_iff of_int_numeral of_int_power)
qed

lemma of_int_abs_ge_1: "n \<noteq> 0 \<Longrightarrow> (1::rat) \<le> \<bar>of_int n\<bar>"
proof -
  assume "n \<noteq> 0"
  then have "1 \<le> \<bar>n\<bar>" by simp
  then show ?thesis by (metis of_int_abs of_int_1_le_iff)
qed

lemma TimeStampExactDiff_bound:
  fixes this before after
  defines "D \<equiv> sint (counterValue after - counterValue before)"
    and "F \<equiv> sint (m_counterFrequency this)"
  assumes F: "m_counterFrequency this \<noteq> 0"
    and small: "\<bar>D\<bar> * 10 ^ 9 < 2 ^ 62 * \<bar>F\<bar>"
  shows "\<exists>r. TimeStampExactDiff this before after = Some r \<and> \<bar>r\<bar> < 2 ^ 63 \<and>
             \<bar>of_int r - of_int D * 10 ^ 9 / of_int F\<bar>
               < 1 + \<bar>of_int D * 10 ^ 9 / of_int F :: rat\<bar> / 2 ^ 23"
proof -
  define xD :: rat where "xD = of_int D"
  define xF :: rat where "xF = of_int F"
  define q :: rat where "q = xD * (10 ^ 9 / xF)"
  have F0: "F \<noteq> 0" using F unfolding F_def by (simp add: signed_eq_0_iff)
  have xF0: "xF \<noteq> 0" using F0 by (simp add: xF_def)
  have xF1: "1 \<le> \<bar>xF\<bar>" unfolding xF_def using F0 by (rule of_int_abs_ge_1)
  have xF63: "\<bar>xF\<bar> \<le> 2 ^ 63" unfolding xF_def F_def by (rule of_int_sint64_abs_le)
  have xD63: "\<bar>xD\<bar> \<le> 2 ^ 63" unfolding xD_def D_def by (rule of_int_sint64_abs_le)
  have q_small: "\<bar>q\<bar> < 2 ^ 62"
  proof -
    have "(of_int (\<bar>D\<bar> * 10 ^ 9) :: rat) < of_int (2 ^ 62 * \<bar>F\<bar>)"
      using small by (simp only: of_int_less_iff)
    then have "\<bar>xD\<bar> * 10 ^ 9 < 2 ^ 62 * \<bar>xF\<bar>" by (simp add: xD_def xF_def)
    then have "\<bar>xD\<bar> * 10 ^ 9 / \<bar>xF\<bar> < 2 ^ 62" using xF0 by (simp add: field_simps)
    then show ?thesis by (simp add: q_def abs_mult abs_divide)
  qed
  have q_big: "xD \<noteq> 0 \<Longrightarrow> 1 / 2 ^ 34 \<le> \<bar>q\<bar>"
  proof -
    assume "xD \<noteq> 0"
    then have "1 \<le> \<bar>xD\<bar>" unfolding xD_def using of_int_abs_ge_1 [of D] by simp
    have "(10 ^ 9 :: rat) / 2 ^ 63 \<le> 10 ^ 9 / \<bar>xF\<bar>"
      using xF63 xF1 by (intro divide_left_mono) simp_all
    then have "(10 ^ 9 :: rat) / 2 ^ 63 \<le> 1 * (10 ^ 9 / \<bar>xF\<bar>)" by (simp only: mult_1)
    also have "\<dots> \<le> \<bar>xD\<bar> * (10 ^ 9 / \<bar>xF\<bar>)"
      using \<open>1 \<le> \<bar>xD\<bar>\<close> by (intro mult_right_mono) simp_all
    finally have "(10 ^ 9 :: rat) / 2 ^ 63 \<le> \<bar>q\<bar>" by (simp add: q_def abs_mult abs_divide)
    then show ?thesis by simp
  qed
  \<comment> \<open>the two conversions to double\<close>
  obtain d where d: "int64_to_double (counterValue after - counterValue before) = Finite d"
    and d_rel: "\<bar>d - xD\<bar> \<le> (1 / 2 ^ 53) * \<bar>xD\<bar>"
    using int64_to_double_rel [of "counterValue after - counterValue before"]
    unfolding xD_def D_def by blast
  obtain f where f: "int64_to_double (m_counterFrequency this) = Finite f"
    and f_rel: "\<bar>f - xF\<bar> \<le> (1 / 2 ^ 53) * \<bar>xF\<bar>"
    using int64_to_double_rel [of "m_counterFrequency this"]
    unfolding xF_def F_def by blast
  \<comment> \<open>the quotient\<close>
  have f0: "f \<noteq> 0"
    by (rule rel_inverse(1) [OF f_rel _ _ xF0]) simp_all
  have inv_rel: "\<bar>10 ^ 9 / f - 10 ^ 9 / xF\<bar> \<le> (2 * (1 / 2 ^ 53)) * \<bar>10 ^ 9 / xF\<bar>"
    by (rule rel_inverse(2) [OF f_rel _ _ xF0]) simp_all
  have c_abs: "\<bar>10 ^ 9 / xF\<bar> = 10 ^ 9 / \<bar>xF\<bar>"
    by (simp add: abs_divide)
  have c_lo: "(10 ^ 9 :: rat) / 2 ^ 63 \<le> \<bar>10 ^ 9 / xF\<bar>"
    unfolding c_abs using xF63 xF1 by (intro divide_left_mono) simp_all
  have "(10 ^ 9 :: rat) / \<bar>xF\<bar> \<le> 10 ^ 9 / 1"
    using xF1 by (intro divide_left_mono) simp_all
  then have c_hi: "\<bar>10 ^ 9 / xF\<bar> \<le> 10 ^ 9"
    unfolding c_abs by simp
  have quot_range: "1 / 2 ^ 100 \<le> \<bar>10 ^ 9 / f\<bar> \<and> \<bar>10 ^ 9 / f\<bar> \<le> 2 ^ 100"
    using rel_bounds [OF inv_rel] c_lo c_hi by simp
  obtain q1 where q1: "to_double (10 ^ 9 / f) = Finite q1"
    and q1_rel0: "\<bar>q1 - 10 ^ 9 / f\<bar> \<le> (1 / 2 ^ 53) * \<bar>10 ^ 9 / f\<bar>"
    using to_double_rel [of "10 ^ 9 / f"] quot_range by blast
  have q1_rel: "\<bar>q1 - 10 ^ 9 / xF\<bar> \<le> (4 / 2 ^ 53) * \<bar>10 ^ 9 / xF\<bar>"
    by (rule rel_weaken [OF rel_trans [OF inv_rel q1_rel0]]) simp_all
  have quot: "fdiv (Finite 1000000000) (Finite f) = Finite q1"
    using f0 q1 by (simp add: fdiv_def)
  \<comment> \<open>the product\<close>
  have prod_rel: "\<bar>d * q1 - q\<bar> \<le> (6 / 2 ^ 53) * \<bar>q\<bar>"
    unfolding q_def by (rule rel_weaken [OF rel_mult [OF d_rel q1_rel]]) simp_all
  have prod_range: "d * q1 = 0 \<or> 1 / 2 ^ 100 \<le> \<bar>d * q1\<bar> \<and> \<bar>d * q1\<bar> \<le> 2 ^ 100"
  proof (cases "xD = 0")
    case True
    then have "d = 0" using d_rel by simp
    then show ?thesis by simp
  next
    case False
    show ?thesis using rel_bounds [OF prod_rel] q_big [OF False] q_small by simp
  qed
  obtain p1 where p1: "to_double (d * q1) = Finite p1"
    and p1_rel0: "\<bar>p1 - d * q1\<bar> \<le> (1 / 2 ^ 53) * \<bar>d * q1\<bar>"
    using to_double_rel [OF prod_range] by blast
  have p1_rel: "\<bar>p1 - q\<bar> \<le> (8 / 2 ^ 53) * \<bar>q\<bar>"
    by (rule rel_weaken [OF rel_trans [OF prod_rel p1_rel0]]) simp_all
  have prod: "fmul (Finite d) (Finite q1) = Finite p1"
    using p1 by (simp add: fmul_def)
  \<comment> \<open>the conversion to float\<close>
  have p1_range: "p1 = 0 \<or> 1 / 2 ^ 100 \<le> \<bar>p1\<bar> \<and> \<bar>p1\<bar> \<le> 2 ^ 100"
  proof (cases "xD = 0")
    case True
    then have "q = 0" by (simp add: q_def)
    then have "p1 = 0" using p1_rel by simp
    then show ?thesis by simp
  next
    case False
    show ?thesis using rel_bounds [OF p1_rel] q_big [OF False] q_small by simp
  qed
  obtain fl where fl: "to_float p1 = Finite fl"
    and fl_rel0: "\<bar>fl - p1\<bar> \<le> (1 / 2 ^ 24) * \<bar>p1\<bar>"
    using to_float_rel [OF p1_range] by blast
  have fl_rel: "\<bar>fl - q\<bar> \<le> (1 / 2 ^ 23) * \<bar>q\<bar>"
    by (rule rel_weaken [OF rel_trans [OF p1_rel fl_rel0]]) simp_all
  have floatValue: "double_to_float (Finite p1) = Finite fl"
    using fl by (simp add: double_to_float_def)
  \<comment> \<open>the conversion to long long\<close>
  have "\<bar>fl\<bar> \<le> (1 + 1 / 2 ^ 23) * \<bar>q\<bar>" using rel_bounds(1) [OF fl_rel] .
  also have "\<dots> < 2 ^ 63" using q_small by simp
  finally have fl63: "\<bar>fl\<bar> < 2 ^ 63" .
  have "\<bar>of_int (fp_truncate fl) :: rat\<bar> < 2 ^ 63"
    using fp_truncate_abs_le [of fl] fl63 by linarith
  then have "\<bar>of_int (fp_truncate fl) :: rat\<bar> < of_int (2 ^ 63)" by simp
  then have t63: "\<bar>fp_truncate fl\<bar> < 2 ^ 63"
    by (simp only: of_int_abs [symmetric] of_int_less_iff)
  then have "- (2 ^ 63) \<le> fp_truncate fl \<and> fp_truncate fl < 2 ^ 63"
    by linarith
  then have conv: "fp_to_int64 (Finite fl) = Some (fp_truncate fl)"
    by (simp add: fp_to_int64_def)
  have res: "TimeStampExactDiff this before after = Some (fp_truncate fl)"
    by (simp add: TimeStampExactDiff_def d f quot prod floatValue conv)
  have "\<bar>of_int (fp_truncate fl) - q\<bar> \<le> \<bar>of_int (fp_truncate fl) - fl\<bar> + \<bar>fl - q\<bar>" by linarith
  also have "\<dots> < 1 + (1 / 2 ^ 23) * \<bar>q\<bar>"
    using fp_truncate_error [of fl] fl_rel by linarith
  finally have "\<bar>of_int (fp_truncate fl) - q\<bar> < 1 + \<bar>q\<bar> / 2 ^ 23" by simp
  moreover have "q = of_int D * 10 ^ 9 / of_int F" by (simp add: q_def xD_def xF_def)
  ultimately show ?thesis using res t63 by auto
qed

subsection \<open>Error propagation in \<^verbatim>\<open>TimeStampExactDiff\<close>\<close>

lemma sint_diff_no_overflow:
  fixes a b :: "64 word"
  assumes "- (2 ^ 63) \<le> sint b - sint a" "sint b - sint a < 2 ^ 63"
  shows "sint (b - a) = sint b - sint a"
proof -
  have "b - a = word_of_int (sint b - sint a)" by simp
  then have "sint (b - a) = signed_take_bit 63 (sint b - sint a)"
    by (simp only: sint_sbintrunc') simp
  then show ?thesis using assms by (simp add: signed_take_bit_int_eq_self)
qed

lemma sint_neg_no_overflow:
  fixes w :: "64 word"
  assumes "sint w \<noteq> - (2 ^ 63)"
  shows "sint (- w) = - sint w"
proof -
  have "- w = word_of_int (- sint w)" by simp
  then have "sint (- w) = signed_take_bit 63 (- sint w)"
    by (simp only: sint_sbintrunc') simp
  moreover have "- (2 ^ 63) \<le> - sint w" "- sint w < 2 ^ 63"
    using sint64_bounds [of w] assms by linarith+
  ultimately show ?thesis by (simp add: signed_take_bit_int_eq_self)
qed

lemma fmul_fneg: "fmul (fneg x) y = fneg (fmul x y)"
  by (cases x; cases y) (auto simp: fmul_def is_neg_def to_double_def fp_round_minus)

lemma double_to_float_fneg: "double_to_float (fneg v) = fneg (double_to_float v)"
  by (cases v) (simp_all add: double_to_float_def to_float_def fp_round_minus)

lemma fp_to_int64_fneg:
  assumes "fp_to_int64 v = Some t" "t \<noteq> - (2 ^ 63)"
  shows "fp_to_int64 (fneg v) = Some (- t)"
  using assms by (cases v) (auto simp: fp_to_int64_def fp_truncate_minus split: if_splits)

lemma TimeStampExactDiff_swap:
  assumes ovf: "sint (counterValue b - counterValue a) \<noteq> - (2 ^ 63)"
    and r: "TimeStampExactDiff this a b = Some r" and r_min: "r \<noteq> - (2 ^ 63)"
  shows "TimeStampExactDiff this b a = Some (- r)"
proof -
  have "counterValue a - counterValue b = - (counterValue b - counterValue a)" by simp
  then have "int64_to_double (counterValue a - counterValue b)
               = fneg (int64_to_double (counterValue b - counterValue a))"
    using sint_neg_no_overflow [OF ovf]
    by (simp add: int64_to_double_def to_double_def fp_round_minus [symmetric])
  then show ?thesis
    using r r_min
    by (simp add: TimeStampExactDiff_def fmul_fneg double_to_float_fneg fp_to_int64_fneg)
qed

lemma to_double_numeral:
  "(numeral k :: int) \<le> 2 ^ 53 \<Longrightarrow> to_double (numeral k) = Finite (numeral k)"
  using to_double_of_int [of "numeral k"] by simp

lemma to_float_numeral:
  "(numeral k :: int) \<le> 2 ^ 24 \<Longrightarrow> to_float (numeral k) = Finite (numeral k)"
  using to_float_of_int [of "numeral k"] by simp

lemma to_double_0 [simp]: "to_double 0 = Finite 0"
  by (simp add: to_double_def fp_round_def)

lemma to_float_0 [simp]: "to_float 0 = Finite 0"
  by (simp add: to_float_def fp_round_def)

lemma to_double_1 [simp]: "to_double 1 = Finite 1"
  using to_double_of_int [of 1] by simp

lemma fp_to_int64_numeral:
  "(numeral k :: int) < 2 ^ 63 \<Longrightarrow> fp_to_int64 (Finite (numeral k)) = Some (numeral k)"
  by (simp add: fp_to_int64_def fp_truncate_def)

lemma fp_to_int64_0 [simp]: "fp_to_int64 (Finite 0) = Some 0"
  by (simp add: fp_to_int64_def fp_truncate_def)

lemma int64_to_double_finite: "\<exists>d. int64_to_double w = Finite d"
  using int64_to_double_rel [of w] by blast

lemma int64_to_double_nonzero:
  assumes "w \<noteq> 0"
  shows "\<exists>d. int64_to_double w = Finite d \<and> d \<noteq> 0"
proof -
  obtain d where d: "int64_to_double w = Finite d"
    and rel: "\<bar>d - of_int (sint w)\<bar> \<le> (1 / 2 ^ 53) * \<bar>of_int (sint w)\<bar>"
    using int64_to_double_rel [of w] by blast
  have "sint w \<noteq> 0" using assms by (simp add: signed_eq_0_iff)
  then have "(1::rat) \<le> \<bar>of_int (sint w)\<bar>" by (rule of_int_abs_ge_1)
  then have "d \<noteq> 0" using rel by auto
  then show ?thesis using d by blast
qed

lemma ilog2_2p53_1: "ilog2 9007199254740993 = 53"
  by (rule ilog2_unique) simp_all

lemma round_even_2p52_half: "round_even (9007199254740993 / 2) = 4503599627370496"
proof -
  have "\<lfloor>(9007199254740993::rat) / 2\<rfloor> = 4503599627370496"
    by (rule floor_unique) simp_all
  then show ?thesis by (simp add: round_even_def Let_def)
qed

lemma to_double_2p53_1: "to_double 9007199254740993 = Finite 9007199254740992"
  by (simp add: to_double_def fp_round_def ilog2_2p53_1 round_even_2p52_half Let_def)

lemma round_even_numeral [simp]: "round_even (numeral k) = numeral k"
  using round_even_of_int [of "numeral k"] by simp

lemma ilog2_67108900: "ilog2 67108900 = 26"
  by (rule ilog2_unique) simp_all

lemma round_even_8388612_half: "round_even (16777225 / 2) = 8388612"
proof -
  have "\<lfloor>(16777225::rat) / 2\<rfloor> = 8388612"
    by (rule floor_unique) simp_all
  then show ?thesis by (simp add: round_even_def Let_def)
qed

lemma to_float_67108900: "to_float 67108900 = Finite 67108896"
  by (simp add: to_float_def fp_round_def ilog2_67108900 round_even_8388612_half Let_def)


subsection \<open>Time stamps\<close>

text \<open>
  Claim C1: \<^verbatim>\<open>TimeStampExactDiff\<close> is to return the tick difference times \<open>10^9\<close>
  divided by the counter frequency, truncated to a 64-bit integer. The code does not: it
  stores the \<^verbatim>\<open>double\<close> product in \<^verbatim>\<open>float floatValue\<close>, which has 24 significant
  bits. With the counter frequency of 10 MHz and a difference of 671089 ticks the
  \<^verbatim>\<open>double\<close> product is exactly 67108900, the quotient; the \<^verbatim>\<open>float\<close> is 67108896, and
  that is what the function returns.
\<close>

theorem TimeStampExactDiff_not_exact:
  "fmul (int64_to_double (671089 - 0)) (fdiv (Finite 1000000000) (int64_to_double 10000000))
     = Finite 67108900 \<and>
   double_to_float (Finite 67108900) = Finite 67108896 \<and>
   TimeStampExactDiff \<lparr>m_counterFrequency = 10000000\<rparr> \<lparr>counterValue = 0\<rparr>
      \<lparr>counterValue = 671089\<rparr> = Some 67108896 \<and>
   fp_truncate (of_int (sint (671089 - 0 :: 64 word)) * 10 ^ 9
                  / of_int (sint (10000000 :: 64 word))) = 67108900"
proof -
  have 1: "fmul (int64_to_double (671089 - 0)) (fdiv (Finite 1000000000) (int64_to_double 10000000))
     = Finite 67108900"
    by (simp add: int64_to_double_def to_double_numeral fdiv_def fmul_def)
  have 2: "double_to_float (Finite 67108900) = Finite 67108896"
    by (simp add: double_to_float_def to_float_67108900)
  have 3: "TimeStampExactDiff \<lparr>m_counterFrequency = 10000000\<rparr> \<lparr>counterValue = 0\<rparr>
      \<lparr>counterValue = 671089\<rparr> = Some 67108896"
    by (simp add: TimeStampExactDiff_def int64_to_double_def to_double_numeral fdiv_def fmul_def
        double_to_float_def to_float_67108900 fp_to_int64_numeral)
  have 4: "fp_truncate (of_int (sint (671089 - 0 :: 64 word)) * 10 ^ 9
                  / of_int (sint (10000000 :: 64 word))) = 67108900"
    by (simp add: fp_truncate_def)
  show ?thesis using 1 2 3 4 by blast
qed

text \<open>
  Claim C2, as stated, fails for the fraction 1: the tick difference is converted to
  \<^verbatim>\<open>double\<close>, which has 53 significant bits, so a difference of \<open>2^53 + 1\<close> ticks is
  rounded to \<open>2^53\<close> and the result is not \<open>b\<close>.
\<close>

theorem InterpolateTimeStamp_one_counterexample:
  "InterpolateTimeStamp \<lparr>counterValue = 0\<rparr> \<lparr>counterValue = 0\<rparr>
      \<lparr>counterValue = 9007199254740993\<rparr> (Finite 1) = Some \<lparr>counterValue = 9007199254740992\<rparr>"
  by (simp add: InterpolateTimeStamp_def int64_to_double_def to_double_2p53_1 fmul_def
        to_double_numeral fp_to_int64_numeral)

text \<open>
  Claim C2, amended. For every pair of time stamps \<open>a\<close> and \<open>b\<close>,
  \<^verbatim>\<open>InterpolateTimeStamp(dst, a, b, 0)\<close> stores the counter value of \<open>a\<close> into \<open>dst\<close>;
  \<^verbatim>\<open>InterpolateTimeStamp(dst, a, b, 1)\<close> stores the counter value of \<open>b\<close> whenever the
  tick difference \<open>b - a\<close> is at most \<open>2^53\<close> in magnitude.
\<close>

theorem InterpolateTimeStamp_endpoints:
  "InterpolateTimeStamp dst a b (Finite 0) = Some (dst\<lparr>counterValue := counterValue a\<rparr>) \<and>
   (\<bar>sint (counterValue b - counterValue a)\<bar> \<le> 2 ^ 53 \<longrightarrow>
      InterpolateTimeStamp dst a b (Finite 1) = Some (dst\<lparr>counterValue := counterValue b\<rparr>))"
proof
  obtain d where d: "int64_to_double (counterValue b - counterValue a) = Finite d"
    using int64_to_double_finite by blast
  show "InterpolateTimeStamp dst a b (Finite 0) = Some (dst\<lparr>counterValue := counterValue a\<rparr>)"
    by (simp add: InterpolateTimeStamp_def d fmul_def)
next
  show "\<bar>sint (counterValue b - counterValue a)\<bar> \<le> 2 ^ 53 \<longrightarrow>
      InterpolateTimeStamp dst a b (Finite 1) = Some (dst\<lparr>counterValue := counterValue b\<rparr>)"
  proof
    assume small: "\<bar>sint (counterValue b - counterValue a)\<bar> \<le> 2 ^ 53"
    define n where "n = sint (counterValue b - counterValue a)"
    have d: "int64_to_double (counterValue b - counterValue a) = Finite (of_int n)"
      unfolding int64_to_double_def n_def using small by (rule to_double_of_int)
    have m: "fmul (Finite (of_int n)) (Finite 1) = Finite (of_int n)"
      using small to_double_of_int [of n] by (simp add: fmul_def n_def)
    have "- (2 ^ 63) \<le> n \<and> n < 2 ^ 63"
      using sint64_bounds [of "counterValue b - counterValue a"] unfolding n_def by simp
    then have c: "fp_to_int64 (Finite (of_int n)) = Some n"
      by (simp add: fp_to_int64_def)
    have "counterValue a + word_of_int n = counterValue b" by (simp add: n_def)
    then show "InterpolateTimeStamp dst a b (Finite 1) = Some (dst\<lparr>counterValue := counterValue b\<rparr>)"
      by (simp add: InterpolateTimeStamp_def d m c)
  qed
qed

theorem InterpolateTimeStamp_endpoints_witness:
  "\<bar>sint (counterValue \<lparr>counterValue = 1000\<rparr> - counterValue \<lparr>counterValue = 200\<rparr>)\<bar> \<le> 2 ^ 53 \<and>
   InterpolateTimeStamp \<lparr>counterValue = 0\<rparr> \<lparr>counterValue = 200\<rparr> \<lparr>counterValue = 1000\<rparr> (Finite 1)
     = Some \<lparr>counterValue = 1000\<rparr>"
  using InterpolateTimeStamp_endpoints
     [of "\<lparr>counterValue = 0\<rparr>" "\<lparr>counterValue = 200\<rparr>" "\<lparr>counterValue = 1000\<rparr>"]
  by simp

text \<open>
  Claim C8. Valid tick pairs are pairs of non-negative counter readings, as
  \<^verbatim>\<open>QueryPerformanceCounter\<close> delivers them, whose distance in nanoseconds is below
  \<open>2^62\<close>, so that it is a \<^verbatim>\<open>long long\<close>. For every such pair and every non-zero counter
  frequency both calls return, and \<^verbatim>\<open>TimeStampExactDiff(a, b)\<close> is exactly the negation of
  \<^verbatim>\<open>TimeStampExactDiff(b, a)\<close>: rounding to nearest and truncation towards zero are
  both symmetric.
\<close>

theorem TimeStampExactDiff_antisymmetric:
  assumes freq: "m_counterFrequency this \<noteq> 0"
    and valid: "0 \<le> sint (counterValue a)" "0 \<le> sint (counterValue b)"
    and small: "\<bar>sint (counterValue b) - sint (counterValue a)\<bar> * 10 ^ 9
                  < 2 ^ 62 * \<bar>sint (m_counterFrequency this)\<bar>"
  shows "\<exists>r. TimeStampExactDiff this a b = Some r \<and> TimeStampExactDiff this b a = Some (- r)"
proof -
  have diff: "sint (counterValue b - counterValue a) = sint (counterValue b) - sint (counterValue a)"
    using valid sint64_bounds [of "counterValue a"] sint64_bounds [of "counterValue b"]
    by (intro sint_diff_no_overflow) linarith+
  then have ovf: "sint (counterValue b - counterValue a) \<noteq> - (2 ^ 63)"
    using valid sint64_bounds [of "counterValue a"] sint64_bounds [of "counterValue b"]
    by linarith
  obtain r where r: "TimeStampExactDiff this a b = Some r" and r63: "\<bar>r\<bar> < 2 ^ 63"
    using TimeStampExactDiff_bound [OF freq, of b a] small unfolding diff by blast
  have "r \<noteq> - (2 ^ 63)" using r63 by linarith
  then show ?thesis using r TimeStampExactDiff_swap [OF ovf r] by blast
qed

theorem TimeStampExactDiff_antisymmetric_witness:
  "TimeStampExactDiff \<lparr>m_counterFrequency = 10000000\<rparr> \<lparr>counterValue = 5\<rparr> \<lparr>counterValue = 12\<rparr>
     = Some 700 \<and>
   TimeStampExactDiff \<lparr>m_counterFrequency = 10000000\<rparr> \<lparr>counterValue = 12\<rparr> \<lparr>counterValue = 5\<rparr>
     = Some (- 700)"
proof -
  have e: "TimeStampExactDiff \<lparr>m_counterFrequency = 10000000\<rparr> \<lparr>counterValue = 5\<rparr>
             \<lparr>counterValue = 12\<rparr> = Some 700"
    by (simp add: TimeStampExactDiff_def int64_to_double_def to_double_numeral fdiv_def fmul_def
        double_to_float_def to_float_numeral fp_to_int64_numeral)
  show ?thesis
    using e TimeStampExactDiff_antisymmetric
      [of "\<lparr>m_counterFrequency = 10000000\<rparr>" "\<lparr>counterValue = 5\<rparr>" "\<lparr>counterValue = 12\<rparr>"]
    by simp
qed

text \<open>
  Claim C10, as stated, fails for a fraction that is an infinity or a NaN: the product
  \<open>0 * i\<close> is then a NaN, and the conversion of a NaN to \<^verbatim>\<open>long long\<close> is undefined.
\<close>

theorem InterpolateTimeStamp_same_endpoints_infinite:
  "InterpolateTimeStamp \<lparr>counterValue = 0\<rparr> \<lparr>counterValue = 5\<rparr> \<lparr>counterValue = 5\<rparr> PInf = None \<and>
   InterpolateTimeStamp \<lparr>counterValue = 0\<rparr> \<lparr>counterValue = 5\<rparr> \<lparr>counterValue = 5\<rparr> NaN = None"
  by (simp add: InterpolateTimeStamp_def int64_to_double_def fmul_def fp_to_int64_def)

text \<open>
  Claim C10, amended. For every time stamp \<open>a\<close> and every finite fraction \<open>i\<close>, inside
  or outside \<open>[0, 1]\<close>, \<^verbatim>\<open>InterpolateTimeStamp(dst, a, a, i)\<close> stores the counter value
  of \<open>a\<close> into \<open>dst\<close>.
\<close>

theorem InterpolateTimeStamp_same_endpoints:
  "InterpolateTimeStamp dst a a (Finite r) = Some (dst\<lparr>counterValue := counterValue a\<rparr>)"
  by (simp add: InterpolateTimeStamp_def int64_to_double_def fmul_def)


subsection \<open>Initialisation\<close>

text \<open>
  Claim C5, as stated, fails in a build with \<^verbatim>\<open>NDEBUG\<close> defined: the only check is an
  \<^verbatim>\<open>assert\<close>, which such a build compiles out, so \<^verbatim>\<open>Init\<close> returns with a zero
  frequency, and the conversion in \<^verbatim>\<open>TimeStampExactDiff\<close> is then undefined.
\<close>

theorem Init_NDEBUG_zero_frequency:
  "Init True 0 \<lparr>m_counterFrequency = 10000000\<rparr> = Returned \<lparr>m_counterFrequency = 0\<rparr> \<and>
   TimeStampExactDiff \<lparr>m_counterFrequency = 0\<rparr> \<lparr>counterValue = 5\<rparr> \<lparr>counterValue = 12\<rparr> = None"
  by (simp add: Init_def TimeStampExactDiff_def int64_to_double_def to_double_numeral fdiv_def
        fmul_def is_neg_def double_to_float_def fp_to_int64_def)

text \<open>
  Claim C5, amended. In a build with assertions enabled (\<^verbatim>\<open>NDEBUG\<close> not defined),
  \<^verbatim>\<open>Init\<close> aborts whenever the operating system reports a zero frequency, and after
  every return of \<^verbatim>\<open>Init\<close> the stored counter frequency is not zero, so that the
  divisor of \<^verbatim>\<open>TimeStampExactDiff\<close>, the frequency converted to \<^verbatim>\<open>double\<close>, is finite
  and not zero.
\<close>

theorem Init_frequency_nonzero:
  "(qpf = 0 \<longrightarrow> Init False qpf this = Aborted) \<and>
   (\<forall>this'. Init False qpf this = Returned this' \<longrightarrow>
      m_counterFrequency this' = qpf \<and> m_counterFrequency this' \<noteq> 0 \<and>
      (\<exists>d. int64_to_double (m_counterFrequency this') = Finite d \<and> d \<noteq> 0))"
  using int64_to_double_nonzero [of qpf]
  by (auto simp: Init_def Let_def split: if_splits)

theorem Init_frequency_nonzero_witness:
  "Init False 10000000 \<lparr>m_counterFrequency = 0\<rparr> = Returned \<lparr>m_counterFrequency = 10000000\<rparr> \<and>
   (\<exists>d. int64_to_double 10000000 = Finite d \<and> d \<noteq> 0)"
  using Init_frequency_nonzero [of 10000000 "\<lparr>m_counterFrequency = 0\<rparr>"]
  by (simp add: Init_def)


subsection \<open>Text conversions\<close>

lemma enc1: "b0 < 0x80 \<Longrightarrow> cp_to_utf8 b0 = [b0] \<and> scalar b0 \<and> b0 < 0x10000"
  by (simp add: cp_to_utf8_def scalar_def)

lemma enc2:
  assumes "0xC2 \<le> b0" "b0 \<le> 0xDF" "is_cont b1"
  defines "cp \<equiv> (b0 - 0xC0) * 64 + (b1 - 0x80)"
  shows "cp_to_utf8 cp = [b0, b1] \<and> scalar cp \<and> cp < 0x10000"
proof -
  define x y where "x = b0 - 0xC0" and "y = b1 - 0x80"
  have b: "b0 = 0xC0 + x" "b1 = 0x80 + y" and r: "2 \<le> x" "x < 32" "y < 64"
    using assms(1-3) unfolding is_cont_def x_def y_def by auto
  have cp: "cp = x * 64 + y" by (simp add: cp_def x_def y_def)
  have "cp div 64 = x" "cp mod 64 = y" using r by (simp_all add: cp)
  moreover have "0x80 \<le> cp" "cp < 0x800" using r by (simp_all add: cp)
  ultimately show ?thesis by (simp add: cp_to_utf8_def scalar_def b)
qed

lemma split64: "z < 64 \<Longrightarrow> (k * 64 + z) mod 64 = z \<and> (k * 64 + z) div 64 = (k::nat)"
  by simp

lemma enc3:
  assumes "0xE0 \<le> b0" "b0 \<le> 0xEF" "is_second b0 b1" "is_cont b2"
  defines "cp \<equiv> (b0 - 0xE0) * 4096 + (b1 - 0x80) * 64 + (b2 - 0x80)"
  shows "cp_to_utf8 cp = [b0, b1, b2] \<and> scalar cp \<and> cp < 0x10000"
proof -
  define x y z where "x = b0 - 0xE0" and "y = b1 - 0x80" and "z = b2 - 0x80"
  have b: "b0 = 0xE0 + x" "b1 = 0x80 + y" "b2 = 0x80 + z"
    and r: "x < 16" "y < 64" "z < 64" "x = 0 \<longrightarrow> 32 \<le> y" "x = 13 \<longrightarrow> y < 32"
    using assms(1-4) unfolding is_cont_def is_second_def second_lo_def second_hi_def x_def y_def z_def
    by (auto split: if_splits)
  have cp: "cp = x * 4096 + (y * 64 + z)" by (simp add: cp_def x_def y_def z_def)
  have yz: "y * 64 + z < 4096" using r by simp
  have d1: "cp div 4096 = x" using yz by (simp add: cp)
  have "cp div 64 = x * 64 + y" using r by (simp add: cp)
  then have d2: "cp div 64 mod 64 = y" using r by simp
  have d3: "cp mod 64 = z"
    using r split64 [of z "x * 64 + y"] by (simp add: cp algebra_simps)
  have lo: "0x800 \<le> cp" using r by (cases "x = 0") (simp_all add: cp)
  have hi: "cp < 0x10000" using r yz by (simp add: cp)
  have sur: "\<not> (0xD800 \<le> cp \<and> cp \<le> 0xDFFF)"
  proof (cases "x = 13")
    case True
    then show ?thesis using r by (simp add: cp)
  next
    case False
    then have "x < 13 \<or> 14 \<le> x" by linarith
    then show ?thesis using yz by (auto simp: cp)
  qed
  show ?thesis using d1 d2 d3 lo hi sur by (simp add: cp_to_utf8_def scalar_def b)
qed

lemma enc4:
  assumes "0xF0 \<le> b0" "b0 \<le> 0xF4" "is_second b0 b1" "is_cont b2" "is_cont b3"
  defines "cp \<equiv> (b0 - 0xF0) * 262144 + (b1 - 0x80) * 4096 + (b2 - 0x80) * 64 + (b3 - 0x80)"
  shows "cp_to_utf8 cp = [b0, b1, b2, b3] \<and> scalar cp \<and> 0x10000 \<le> cp"
proof -
  define x y z w where "x = b0 - 0xF0" and "y = b1 - 0x80" and "z = b2 - 0x80" and "w = b3 - 0x80"
  have b: "b0 = 0xF0 + x" "b1 = 0x80 + y" "b2 = 0x80 + z" "b3 = 0x80 + w"
    and r: "x < 5" "y < 64" "z < 64" "w < 64" "x = 0 \<longrightarrow> 16 \<le> y" "x = 4 \<longrightarrow> y < 16"
    using assms(1-5)
    unfolding is_cont_def is_second_def second_lo_def second_hi_def x_def y_def z_def w_def
    by (auto split: if_splits)
  have cp: "cp = x * 262144 + (y * 4096 + (z * 64 + w))"
    by (simp add: cp_def x_def y_def z_def w_def)
  have zw: "z * 64 + w < 4096" using r by simp
  have yzw: "y * 4096 + (z * 64 + w) < 262144" using r zw by simp
  have d1: "cp div 262144 = x" using yzw by (simp add: cp)
  have "cp div 4096 = x * 64 + y" using zw by (simp add: cp)
  then have d2: "cp div 4096 mod 64 = y" using r by simp
  have "cp div 64 = x * 4096 + y * 64 + z" using r by (simp add: cp)
  then have d3: "cp div 64 mod 64 = z"
    using r split64 [of z "x * 64 + y"] by (simp add: algebra_simps)
  have d4: "cp mod 64 = w"
    using r split64 [of w "(x * 64 + y) * 64 + z"] by (simp add: cp algebra_simps)
  have lo: "0x10000 \<le> cp" using r by (cases "x = 0") (simp_all add: cp)
  have hi: "cp < 0x110000"
  proof (cases "x = 4")
    case True
    then show ?thesis using r zw by (simp add: cp)
  next
    case False
    then have "x \<le> 3" using r by simp
    then show ?thesis using yzw by (simp add: cp)
  qed
  show ?thesis using d1 d2 d3 d4 lo hi by (simp add: cp_to_utf8_def scalar_def b)
qed

lemma utf16_roundtrip_cp:
  assumes "scalar cp"
  shows "utf16_to_cps (cp_to_utf16 cp @ ws) = cp # utf16_to_cps ws"
proof (cases "cp < 0x10000")
  case True
  then show ?thesis using assms by (auto simp: cp_to_utf16_def scalar_def)
next
  case False
  define v where "v = cp - 0x10000"
  have cp: "cp = 0x10000 + v" and v: "v < 0x100000"
    using False assms unfolding v_def scalar_def by linarith+
  have hi: "v div 0x400 < 0x400" using v by simp
  have lo: "v mod 0x400 < 0x400" by simp
  have recomb: "v div 0x400 * 0x400 + v mod 0x400 = v" by simp
  have "utf16_to_cps ((0xD800 + v div 0x400) # (0xDC00 + v mod 0x400) # ws)
          = (0x10000 + (v div 0x400 * 0x400 + v mod 0x400)) # utf16_to_cps ws"
    using hi lo by simp
  then show ?thesis using False unfolding recomb by (simp add: cp_to_utf16_def cp)
qed

lemma utf16_roundtrip:
  assumes "\<forall>cp \<in> set cps. scalar cp"
  shows "utf16_to_cps (concat (map cp_to_utf16 cps)) = cps"
  using assms by (induction cps) (simp_all add: utf16_roundtrip_cp)

lemma cp_to_utf16_units:
  assumes "scalar cp"
  shows "\<forall>u \<in> set (cp_to_utf16 cp). u < 0x10000"
proof (cases "cp < 0x10000")
  case True
  then show ?thesis by (simp add: cp_to_utf16_def)
next
  case False
  have "cp - 0x10000 < 0x100000" using assms unfolding scalar_def by linarith
  then have "(cp - 0x10000) div 0x400 < 0x400" by simp
  moreover have "(cp - 0x10000) mod 0x400 < 0x400" by simp
  ultimately show ?thesis using False by (simp add: cp_to_utf16_def)
qed

lemma unat_word_of_nat_units:
  assumes "\<forall>u \<in> set us. u < 0x10000"
  shows "map unat (map word_of_nat us :: 16 word list) = us"
  using assms by (induction us) (simp_all add: unat_of_nat)

lemma length_cp_to_utf16: "length (cp_to_utf16 cp) = (if cp < 0x10000 then 1 else 2)"
  by (simp add: cp_to_utf16_def)

text \<open>The decoder on a well-formed string, one character at a time.\<close>

lemma well_formed_utf8_decode:
  assumes "well_formed_utf8 bs"
  shows "(\<forall>cp \<in> set (utf8_to_cps bs). scalar cp) \<and>
         concat (map cp_to_utf8 (utf8_to_cps bs)) = bs \<and>
         length (concat (map cp_to_utf16 (utf8_to_cps bs))) \<le> length bs"
  using assms
proof (induction bs rule: length_induct)
  case (1 bs)
  show ?case
  proof (cases bs)
    case Nil
    then show ?thesis by simp
  next
    case (Cons b0 r0)
    note bs = Cons
    consider (a) "b0 < 0x80" | (b) "0xC2 \<le> b0" "b0 \<le> 0xDF" | (c) "0xE0 \<le> b0" "b0 \<le> 0xEF"
      | (d) "0xF0 \<le> b0" "b0 \<le> 0xF4"
      using "1.prems" unfolding bs by (simp split: if_splits)
    then show ?thesis
    proof cases
      case a
      have wf: "well_formed_utf8 r0" using "1.prems" a by (simp add: bs)
      have ih: "(\<forall>cp \<in> set (utf8_to_cps r0). scalar cp) \<and>
         concat (map cp_to_utf8 (utf8_to_cps r0)) = r0 \<and>
         length (concat (map cp_to_utf16 (utf8_to_cps r0))) \<le> length r0"
        using "1.IH" [rule_format, of r0] wf by (simp add: bs)
      show ?thesis using a ih enc1 [OF a] by (simp add: bs length_cp_to_utf16)
    next
      case b
      then obtain b1 r where r0: "r0 = b1 # r" and c: "is_cont b1" and wf: "well_formed_utf8 r"
        using "1.prems" by (auto simp: bs split: list.splits if_splits)
      have ih: "(\<forall>cp \<in> set (utf8_to_cps r). scalar cp) \<and>
         concat (map cp_to_utf8 (utf8_to_cps r)) = r \<and>
         length (concat (map cp_to_utf16 (utf8_to_cps r))) \<le> length r"
        using "1.IH" [rule_format, of r] wf by (simp add: bs r0)
      have dec: "utf8_to_cps bs = ((b0 - 0xC0) * 64 + (b1 - 0x80)) # utf8_to_cps r"
        using b c by (simp add: bs r0)
      show ?thesis unfolding dec using ih enc2 [OF b c] by (simp add: bs r0 length_cp_to_utf16)
    next
      case c
      then obtain b1 b2 r where r0: "r0 = b1 # b2 # r" and s: "is_second b0 b1" "is_cont b2"
        and wf: "well_formed_utf8 r"
        using "1.prems" by (auto simp: bs split: list.splits if_splits)
      have ih: "(\<forall>cp \<in> set (utf8_to_cps r). scalar cp) \<and>
         concat (map cp_to_utf8 (utf8_to_cps r)) = r \<and>
         length (concat (map cp_to_utf16 (utf8_to_cps r))) \<le> length r"
        using "1.IH" [rule_format, of r] wf by (simp add: bs r0)
      have dec: "utf8_to_cps bs
                   = ((b0 - 0xE0) * 4096 + (b1 - 0x80) * 64 + (b2 - 0x80)) # utf8_to_cps r"
        using c s by (simp add: bs r0)
      show ?thesis unfolding dec using ih enc3 [OF c s] by (simp add: bs r0 length_cp_to_utf16)
    next
      case d
      then obtain b1 b2 b3 r where r0: "r0 = b1 # b2 # b3 # r"
        and s: "is_second b0 b1" "is_cont b2" "is_cont b3" and wf: "well_formed_utf8 r"
        using "1.prems" by (auto simp: bs split: list.splits if_splits)
      have ih: "(\<forall>cp \<in> set (utf8_to_cps r). scalar cp) \<and>
         concat (map cp_to_utf8 (utf8_to_cps r)) = r \<and>
         length (concat (map cp_to_utf16 (utf8_to_cps r))) \<le> length r"
        using "1.IH" [rule_format, of r] wf by (simp add: bs r0)
      have dec: "utf8_to_cps bs
                   = ((b0 - 0xF0) * 262144 + (b1 - 0x80) * 4096 + (b2 - 0x80) * 64 + (b3 - 0x80))
                       # utf8_to_cps r"
        using d s by (simp add: bs r0)
      show ?thesis unfolding dec using ih enc4 [OF d s] by (simp add: bs r0 length_cp_to_utf16)
    qed
  qed
qed

lemma size_to_int_small: "n < 2 ^ 31 \<Longrightarrow> size_to_int n = int n"
proof -
  assume n: "n < 2 ^ 31"
  have "(word_of_nat n :: 32 word) = word_of_int (int n)" by simp
  then have "size_to_int n = signed_take_bit 31 (int n)"
    unfolding size_to_int_def by (simp only: sint_sbintrunc') simp
  moreover have "- (2 ^ 31) \<le> int n" "int n < 2 ^ 31" using n by simp_all
  ultimately show ?thesis by (simp add: signed_take_bit_int_eq_self)
qed

lemma UTF8_Decode_eq:
  assumes "length str < 2 ^ 31"
  shows "UTF8_Decode str
           = map word_of_nat (concat (map cp_to_utf16 (utf8_to_cps (map of_char str))))"
proof (cases "str = []")
  case True
  then show ?thesis by (simp add: UTF8_Decode_def MultiByteToWideChar_def size_to_int_def)
next
  case False
  define out :: wstring
    where "out = map word_of_nat (concat (map cp_to_utf16 (utf8_to_cps (map of_char str))))"
  have n: "size_to_int (length str) = int (length str)" "0 < int (length str)"
    using False size_to_int_small [OF assms] by simp_all
  have call: "MultiByteToWideChar str (int (length str)) cch =
                (if cch = 0 then (int (length out), None)
                 else if cch < int (length out) then (0, None)
                 else (int (length out), Some out))" for cch
    using n(2) by (simp add: MultiByteToWideChar_def Let_def out_def)
  have "UTF8_Decode str = out"
    by (cases "out = []") (simp_all add: UTF8_Decode_def n(1) call)
  then show ?thesis by (simp add: out_def)
qed

lemma UTF8_Encode_eq:
  assumes "length wstr < 2 ^ 31"
  shows "UTF8_Encode wstr
           = map char_of (concat (map cp_to_utf8 (utf16_to_cps (map unat wstr))))"
proof (cases "wstr = []")
  case True
  then show ?thesis by (simp add: UTF8_Encode_def WideCharToMultiByte_def size_to_int_def)
next
  case False
  define out :: string
    where "out = map char_of (concat (map cp_to_utf8 (utf16_to_cps (map unat wstr))))"
  have n: "size_to_int (length wstr) = int (length wstr)" "0 < int (length wstr)"
    using False size_to_int_small [OF assms] by simp_all
  have call: "WideCharToMultiByte wstr (int (length wstr)) cb =
                (if cb = 0 then (int (length out), None)
                 else if cb < int (length out) then (0, None)
                 else (int (length out), Some out))" for cb
    using n(2) by (simp add: WideCharToMultiByte_def Let_def out_def)
  have "UTF8_Encode wstr = out"
    by (cases "out = []") (simp_all add: UTF8_Encode_def n(1) call)
  then show ?thesis by (simp add: out_def)
qed

lemma well_formed_ascii: "\<forall>b \<in> set bs. b < 0x80 \<Longrightarrow> well_formed_utf8 bs"
  by (induction bs) simp_all

text \<open>
  Claim C9, as stated, fails for a string of \<open>2^31\<close> bytes or more: both wrappers cast
  the size of the string to \<^verbatim>\<open>int\<close>. A string of \<open>2^32 + 1\<close> letters \<^verbatim>\<open>A\<close> is well-formed
  UTF-8; its size becomes 1, one letter is converted, and the round trip yields the
  string \<^verbatim>\<open>A\<close>.
\<close>

theorem UTF8_roundtrip_truncates:
  "well_formed_utf8 (map of_char (replicate 4294967297 (CHR ''A''))) \<and>
   UTF8_Encode (UTF8_Decode (replicate 4294967297 (CHR ''A''))) = ''A'' \<and>
   replicate 4294967297 (CHR ''A'') \<noteq> ''A''"
proof -
  have wf: "well_formed_utf8 (map of_char (replicate 4294967297 (CHR ''A'')))"
    by (rule well_formed_ascii) simp
  have n: "size_to_int 4294967297 = 1" by (simp add: size_to_int_def)
  have D: "UTF8_Decode (replicate 4294967297 (CHR ''A'')) = [0x41]"
    by (simp add: UTF8_Decode_def MultiByteToWideChar_def n Let_def cp_to_utf16_def)
  have "char_of (of_char (CHR ''A'') :: nat) = CHR ''A''" by (rule char_of_char)
  then have A: "char_of (65 :: nat) = CHR ''A''" by simp
  have E: "UTF8_Encode [0x41] = ''A''"
    by (simp add: UTF8_Encode_eq cp_to_utf8_def A)
  have "length (replicate 4294967297 (CHR ''A'')) \<noteq> length ''A''" by simp
  then have "replicate 4294967297 (CHR ''A'') \<noteq> ''A''" by (metis (full_types))
  then show ?thesis using wf D E by simp
qed

text \<open>
  Claim C9, amended. For every well-formed UTF-8 string of fewer than \<open>2^31\<close> bytes,
  decoding it with \<^verbatim>\<open>UTF8_Decode\<close> and encoding the result with \<^verbatim>\<open>UTF8_Encode\<close> yields
  the original string.
\<close>

theorem UTF8_roundtrip:
  assumes wf: "well_formed_utf8 (map of_char str)" and len: "length str < 2 ^ 31"
  shows "UTF8_Encode (UTF8_Decode str) = str"
proof -
  define bs :: "nat list" where "bs = map of_char str"
  define cps where "cps = utf8_to_cps bs"
  define us where "us = concat (map cp_to_utf16 cps)"
  have dec: "(\<forall>cp \<in> set cps. scalar cp) \<and> concat (map cp_to_utf8 cps) = bs \<and> length us \<le> length bs"
    unfolding cps_def us_def using well_formed_utf8_decode [of bs] wf by (simp add: bs_def)
  have D: "UTF8_Decode str = map word_of_nat us"
    using UTF8_Decode_eq [OF len] by (simp add: us_def cps_def bs_def)
  have "length (UTF8_Decode str) \<le> length str" using dec by (simp add: D bs_def)
  then have len': "length (UTF8_Decode str) < 2 ^ 31" using len by simp
  have units: "\<forall>u \<in> set us. u < 0x10000"
    unfolding us_def using dec cp_to_utf16_units by auto
  have "map unat (UTF8_Decode str) = us"
    unfolding D by (rule unat_word_of_nat_units [OF units])
  then have "UTF8_Encode (UTF8_Decode str) = map char_of (concat (map cp_to_utf8 (utf16_to_cps us)))"
    using UTF8_Encode_eq [OF len'] by simp
  also have "utf16_to_cps us = cps" unfolding us_def using dec by (simp add: utf16_roundtrip)
  also have "concat (map cp_to_utf8 cps) = bs" using dec by simp
  also have "map char_of bs = str" by (simp add: bs_def comp_def)
  finally show ?thesis .
qed

theorem UTF8_roundtrip_witness:
  "well_formed_utf8 (map of_char [CHR 0x41, CHR 0xC3, CHR 0xA9, CHR 0xE2, CHR 0x82, CHR 0xAC,
                                  CHR 0xF0, CHR 0x9F, CHR 0x98, CHR 0x80]) \<and>
   UTF8_Decode [CHR 0x41, CHR 0xC3, CHR 0xA9, CHR 0xE2, CHR 0x82, CHR 0xAC,
                CHR 0xF0, CHR 0x9F, CHR 0x98, CHR 0x80]
     = [0x0041, 0x00E9, 0x20AC, 0xD83D, 0xDE00] \<and>
   UTF8_Encode [0x0041, 0x00E9, 0x20AC, 0xD83D, 0xDE00]
     = [CHR 0x41, CHR 0xC3, CHR 0xA9, CHR 0xE2, CHR 0x82, CHR 0xAC,
        CHR 0xF0, CHR 0x9F, CHR 0x98, CHR 0x80]"
proof -
  have wf: "well_formed_utf8 (map of_char [CHR 0x41, CHR 0xC3, CHR 0xA9, CHR 0xE2, CHR 0x82, CHR 0xAC,
                                  CHR 0xF0, CHR 0x9F, CHR 0x98, CHR 0x80])"
    by (simp add: is_cont_def is_second_def second_lo_def second_hi_def)
  have dec: "UTF8_Decode [CHR 0x41, CHR 0xC3, CHR 0xA9, CHR 0xE2, CHR 0x82, CHR 0xAC,
                CHR 0xF0, CHR 0x9F, CHR 0x98, CHR 0x80]
     = [0x0041, 0x00E9, 0x20AC, 0xD83D, 0xDE00]"
    by (simp add: UTF8_Decode_eq is_cont_def is_second_def second_lo_def second_hi_def
          cp_to_utf16_def)
  show ?thesis
    using wf dec
      UTF8_roundtrip [of "[CHR 0x41, CHR 0xC3, CHR 0xA9, CHR 0xE2, CHR 0x82, CHR 0xAC,
                CHR 0xF0, CHR 0x9F, CHR 0x98, CHR 0x80]"]
    by (simp only: simp_thms) simp
qed


subsection \<open>Dialogs\<close>

lemma windowsType_buttons:
  "button_codes (windowsType SDT_INFO) = {IDOK}"
  "button_codes (windowsType SDT_WARNING) = {IDOK}"
  "button_codes (windowsType SDT_ERROR) = {IDOK}"
  "button_codes (windowsType SDT_YES_NO) = {IDYES, IDNO}"
  "button_codes (windowsType SDT_OK_CANCEL) = {IDOK, IDCANCEL}"
  by (simp_all add: button_codes_def MB_OK_def MB_OKCANCEL_def MB_YESNO_def MB_ICONERROR_def
      MB_ICONQUESTION_def MB_ICONWARNING_def MB_ICONINFORMATION_def)

lemmas native_ids = IDOK_def IDCANCEL_def IDYES_def IDNO_def

text \<open>
  Claim C3, as stated, fails: the second \<^verbatim>\<open>switch\<close> does not look at the dialog type.
  A \<^verbatim>\<open>SDT_YES_NO\<close> dialog returns \<^verbatim>\<open>SDR_OK\<close> when the message box returns its failure
  code 0, and when it returns \<^verbatim>\<open>IDOK\<close>.
\<close>

theorem SystemDialog_yes_no_returns_ok:
  "SystemDialog (\<lambda>m t u. 0) SDT_YES_NO ''Quit'' ''Really?'' = SDR_OK \<and>
   SystemDialog (\<lambda>m t u. IDOK) SDT_YES_NO ''Quit'' ''Really?'' = SDR_OK"
  by (simp add: SystemDialog_def native_ids)

text \<open>
  Claim C3, amended. For each of the five dialog types: when the message box returns the
  identifier of one of the buttons of the button set that \<^verbatim>\<open>SystemDialog\<close> asked for,
  the result is one of the results that this button set stands for. In particular a
  \<^verbatim>\<open>SDT_YES_NO\<close> dialog whose box returns \<^verbatim>\<open>IDYES\<close> or \<^verbatim>\<open>IDNO\<close> does not return
  \<^verbatim>\<open>SDR_OK\<close>.
\<close>

theorem SystemDialog_result_in_button_set:
  assumes "MessageBoxW (wc_str (UTF8_Decode message)) (wc_str (UTF8_Decode title)) (windowsType type)
             \<in> button_codes (windowsType type)"
  shows "SystemDialog MessageBoxW type title message \<in> button_results type \<and>
         (type = SDT_YES_NO \<longrightarrow> SystemDialog MessageBoxW type title message \<noteq> SDR_OK)"
  using assms
  by (cases type)
     (auto simp add: SystemDialog_def windowsType_buttons native_ids Let_def
           simp del: windowsType.simps)

theorem SystemDialog_result_in_button_set_witness:
  "(\<lambda>m t u. if u AND 0x0F = MB_YESNO then IDNO else IDOK)
      (wc_str (UTF8_Decode ''Really?'')) (wc_str (UTF8_Decode ''Quit'')) (windowsType SDT_YES_NO)
     \<in> button_codes (windowsType SDT_YES_NO) \<and>
   SystemDialog (\<lambda>m t u. if u AND 0x0F = MB_YESNO then IDNO else IDOK)
      SDT_YES_NO ''Quit'' ''Really?'' \<in> button_results SDT_YES_NO \<and>
   SystemDialog (\<lambda>m t u. if u AND 0x0F = MB_YESNO then IDNO else IDOK)
      SDT_YES_NO ''Quit'' ''Really?'' = SDR_NO"
proof -
  have h: "(\<lambda>m t u. if u AND 0x0F = MB_YESNO then IDNO else IDOK)
      (wc_str (UTF8_Decode ''Really?'')) (wc_str (UTF8_Decode ''Quit'')) (windowsType SDT_YES_NO)
     \<in> button_codes (windowsType SDT_YES_NO)"
    by (simp add: button_codes_def MB_OK_def MB_OKCANCEL_def MB_YESNO_def MB_ICONQUESTION_def)
  have r: "SystemDialog (\<lambda>m t u. if u AND 0x0F = MB_YESNO then IDNO else IDOK)
      SDT_YES_NO ''Quit'' ''Really?'' = SDR_NO"
    by (simp add: SystemDialog_def native_ids MB_YESNO_def MB_ICONQUESTION_def)
  show ?thesis
    using h r SystemDialog_result_in_button_set
      [of "\<lambda>m t u. if u AND 0x0F = MB_YESNO then IDNO else IDOK" "''Really?''" "''Quit''"
          SDT_YES_NO]
    by simp
qed

text \<open>
  Claim C4. \<^verbatim>\<open>SystemDialog\<close> maps the code that the message box returns as follows:
  \<^verbatim>\<open>IDOK\<close> to \<^verbatim>\<open>SDR_OK\<close>, \<^verbatim>\<open>IDCANCEL\<close> to \<^verbatim>\<open>SDR_CANCEL\<close>, \<^verbatim>\<open>IDYES\<close> to \<^verbatim>\<open>SDR_YES\<close>,
  \<^verbatim>\<open>IDNO\<close> to \<^verbatim>\<open>SDR_NO\<close>, and every other code to \<^verbatim>\<open>SDR_OK\<close>, whatever the dialog
  type, the title and the message are.
\<close>

theorem SystemDialog_maps_native_code:
  assumes "MessageBoxW (wc_str (UTF8_Decode message)) (wc_str (UTF8_Decode title)) (windowsType type) = code"
  shows "(code = IDOK \<longrightarrow> SystemDialog MessageBoxW type title message = SDR_OK) \<and>
         (code = IDCANCEL \<longrightarrow> SystemDialog MessageBoxW type title message = SDR_CANCEL) \<and>
         (code = IDYES \<longrightarrow> SystemDialog MessageBoxW type title message = SDR_YES) \<and>
         (code = IDNO \<longrightarrow> SystemDialog MessageBoxW type title message = SDR_NO) \<and>
         (code \<notin> {IDOK, IDCANCEL, IDYES, IDNO} \<longrightarrow>
            SystemDialog MessageBoxW type title message = SDR_OK)"
  using assms by (simp add: SystemDialog_def native_ids Let_def)

theorem SystemDialog_maps_native_code_witness:
  "SystemDialog (\<lambda>m t u. IDCANCEL) SDT_OK_CANCEL ''Exit'' ''Leave the mission?'' = SDR_CANCEL \<and>
   SystemDialog (\<lambda>m t u. 42) SDT_ERROR ''Error'' ''No sound card'' = SDR_OK"
  using SystemDialog_maps_native_code
          [of "\<lambda>m t u. IDCANCEL" "''Leave the mission?''" "''Exit''" SDT_OK_CANCEL IDCANCEL]
        SystemDialog_maps_native_code
          [of "\<lambda>m t u. 42" "''No sound card''" "''Error''" SDT_ERROR 42]
  by (simp add: native_ids)


subsection \<open>The save directory\<close>

text \<open>
  \<^verbatim>\<open>GetEnvVar\<close> on a name that is not set in the environment returns the empty string and
  logs nothing.
\<close>

theorem GetEnvVar_unset:
  assumes "wgetenv (wc_str (map widen name)) = None"
  shows "GetEnvVar wgetenv name lg = ([], lg)"
  using assms by (simp add: GetEnvVar_def)

theorem GetEnvVar_unset_witness:
  "GetEnvVar (\<lambda>n. if n = map widen ''PATH'' then Some [0x43] else None) ''COLOBOT_HOME'' [] = ([], [])"
proof -
  have "(\<lambda>n. if n = map widen ''PATH'' then Some [0x43 :: wchar_t] else None)
          (wc_str (map widen ''COLOBOT_HOME'')) = None"
    by (simp add: wc_str_def widen_def)
  then show ?thesis by (rule GetEnvVar_unset)
qed

lemma wc_str_USERPROFILE: "wc_str (map widen ''USERPROFILE'') = map widen ''USERPROFILE''"
  by (simp add: wc_str_def widen_def)

text \<open>
  Claim C6. In a build with neither \<^verbatim>\<open>PORTABLE_SAVES\<close> nor \<^verbatim>\<open>DEV_BUILD\<close>, let
  \<open>envUSERPROFILE\<close> be what \<^verbatim>\<open>GetEnvVar("USERPROFILE")\<close> returns: the empty string when
  the variable is not set, its value encoded in UTF-8 otherwise. When it is not empty,
  \<^verbatim>\<open>GetSaveDir\<close> returns it with \<^verbatim>\<open>\colobot\<close> appended and logs no warning. When it is
  empty, \<^verbatim>\<open>GetSaveDir\<close> logs the warning and returns the default save directory of the
  base class. Both ways a trace message with the directory ends the log.
\<close>

theorem GetSaveDir_installed_build:
  assumes "\<not> PORTABLE_SAVES" and "\<not> DEV_BUILD"
    and "GetEnvVar wgetenv ''USERPROFILE'' lg = (envUSERPROFILE, lg1)"
  shows "envUSERPROFILE =
           (case wgetenv (map widen ''USERPROFILE'') of
              None \<Rightarrow> [] | Some envVar \<Rightarrow> UTF8_Encode (wc_str envVar)) \<and>
         fst (GetSaveDir PORTABLE_SAVES DEV_BUILD default_dir wgetenv lg) =
           (if envUSERPROFILE \<noteq> [] then envUSERPROFILE @ CHR 0x5C # ''colobot'' else default_dir) \<and>
         snd (GetSaveDir PORTABLE_SAVES DEV_BUILD default_dir wgetenv lg) =
           lg1 @
           (if envUSERPROFILE \<noteq> [] then []
            else [\<lparr>level = LOG_WARN,
                   format = ''Unable to find directory for saves - using default directory'',
                   args = []\<rparr>]) @
           [\<lparr>level = LOG_TRACE, format = ''Saved game files are going to %s'' @ [CHR 0x0A],
             args = [ArgStr (c_str (fst (GetSaveDir PORTABLE_SAVES DEV_BUILD default_dir wgetenv lg)))]\<rparr>]"
proof -
  have "envUSERPROFILE =
           (case wgetenv (map widen ''USERPROFILE'') of
              None \<Rightarrow> [] | Some envVar \<Rightarrow> UTF8_Encode (wc_str envVar))"
    using assms(3) unfolding GetEnvVar_def Let_def wc_str_USERPROFILE
    by (auto split: option.splits)
  moreover have "fst (GetSaveDir PORTABLE_SAVES DEV_BUILD default_dir wgetenv lg) =
           (if envUSERPROFILE \<noteq> [] then envUSERPROFILE @ CHR 0x5C # ''colobot'' else default_dir)"
    using assms by (simp add: GetSaveDir_def)
  moreover have "snd (GetSaveDir PORTABLE_SAVES DEV_BUILD default_dir wgetenv lg) =
           lg1 @
           (if envUSERPROFILE \<noteq> [] then []
            else [\<lparr>level = LOG_WARN,
                   format = ''Unable to find directory for saves - using default directory'',
                   args = []\<rparr>]) @
           [\<lparr>level = LOG_TRACE, format = ''Saved game files are going to %s'' @ [CHR 0x0A],
             args = [ArgStr (c_str (fst (GetSaveDir PORTABLE_SAVES DEV_BUILD default_dir wgetenv lg)))]\<rparr>]"
    using assms by (simp add: GetSaveDir_def Trace_def Warn_def)
  ultimately show ?thesis by blast
qed

theorem GetSaveDir_installed_build_witness:
  "GetEnvVar (\<lambda>n. None) ''USERPROFILE'' [] = ([], []) \<and>
   fst (GetSaveDir False False ''./saves'' (\<lambda>n. None) []) = ''./saves'' \<and>
   map level (snd (GetSaveDir False False ''./saves'' (\<lambda>n. None) [])) = [LOG_WARN, LOG_TRACE] \<and>
   fst (GetSaveDir False False ''./saves''
          (\<lambda>n. if n = map widen ''USERPROFILE'' then Some [0x43, 0x3A, 0x5C, 0x55] else None) [])
     = CHR ''C'' # CHR '':'' # CHR 0x5C # CHR ''U'' # CHR 0x5C # ''colobot'' \<and>
   map level (snd (GetSaveDir False False ''./saves''
          (\<lambda>n. if n = map widen ''USERPROFILE'' then Some [0x43, 0x3A, 0x5C, 0x55] else None) []))
     = [LOG_TRACE, LOG_TRACE]"
proof -
  let ?env = "\<lambda>n. if n = map widen ''USERPROFILE'' then Some [0x43, 0x3A, 0x5C, 0x55 :: wchar_t] else None"
  let ?dir = "[CHR ''C'', CHR '':'', CHR 0x5C, CHR ''U'']"
  have h: "GetEnvVar (\<lambda>n. None) ''USERPROFILE'' [] = ([], [])"
    by (simp add: GetEnvVar_def)
  have "map char_of (map of_char ?dir :: nat list) = ?dir"
    by (simp only: map_map comp_def char_of_char map_ident)
  then have chars: "map char_of [67, 58, 92, 85 :: nat] = ?dir" by simp
  have "UTF8_Encode [0x43, 0x3A, 0x5C, 0x55] = map char_of [67, 58, 92, 85 :: nat]"
    by (simp add: UTF8_Encode_eq cp_to_utf8_def)
  then have enc: "UTF8_Encode [0x43, 0x3A, 0x5C, 0x55] = ?dir" using chars by simp
  have h': "GetEnvVar ?env ''USERPROFILE'' [] =
              (?dir, Trace (''Detected environment variable %s = %s'' @ [CHR 0x0A])
                       [ArgStr (c_str ''USERPROFILE''), ArgStr (c_str ?dir)] [])"
    unfolding GetEnvVar_def Let_def wc_str_USERPROFILE
    by (simp add: enc) (simp add: wc_str_def enc)
  show ?thesis
    using h GetSaveDir_installed_build [OF _ _ h, of False False "''./saves''"]
      GetSaveDir_installed_build [OF _ _ h', of False False "''./saves''"]
    by (simp add: Trace_def)
qed


subsection \<open>Opening a path or a web site\<close>

text \<open>
  Claim C7. For every path, every URL and every behaviour of \<^verbatim>\<open>system\<close>: \<^verbatim>\<open>OpenPath\<close>
  and \<^verbatim>\<open>OpenWebsite\<close> return \<open>True\<close> exactly when the exit code of their command is 0,
  and then log nothing; they return \<open>False\<close> exactly when it is not 0, and then log one
  error message, whose arguments are the path (or URL) and the exit code.
\<close>

theorem OpenPath_OpenWebsite_exit_code:
  \<open>(fst (OpenPath system make_preferred path lg)
       \<longleftrightarrow> system (c_str (''start explorer "'' @ make_preferred path @ ''"'')) = 0) \<and>
    snd (OpenPath system make_preferred path lg) =
      (if fst (OpenPath system make_preferred path lg) then lg
       else lg @ [\<lparr>level = LOG_ERROR,
                    format = ''Failed to open path: %s, error code: %i'' @ [CHR 0x0A],
                    args = [ArgStr (c_str path),
                            ArgInt (system (c_str (''start explorer "'' @ make_preferred path @ ''"'')))]\<rparr>]) \<and>
    (fst (OpenWebsite system url lg)
       \<longleftrightarrow> system (c_str (''rundll32 url.dll,FileProtocolHandler "'' @ url @ ''"'')) = 0) \<and>
    snd (OpenWebsite system url lg) =
      (if fst (OpenWebsite system url lg) then lg
       else lg @ [\<lparr>level = LOG_ERROR,
                    format = ''Failed to open website: %s, error code: %i'' @ [CHR 0x0A],
                    args = [ArgStr (c_str url),
                            ArgInt (system (c_str (''rundll32 url.dll,FileProtocolHandler "'' @ url @ ''"'')))]\<rparr>])\<close>
  by (simp add: OpenPath_def OpenWebsite_def Error_def Let_def)

end
